theory Spec2Isabelle
  imports Complex_Main "HOL-Library.Sublist"
begin

section \<open>JavaScript numbers\<close>

text \<open>
  The recognizer computes with JavaScript numbers.  They are modelled as exact real
  numbers extended with the three non-finite values \<open>Infinity\<close>, \<open>-Infinity\<close> and
  \<open>NaN\<close>, with the IEEE rules for them: a division by zero gives an infinity or
  \<open>NaN\<close>, \<open>0 * Infinity\<close> and \<open>Infinity - Infinity\<close> are \<open>NaN\<close>, every
  comparison with \<open>NaN\<close> is false.  Rounding is not modelled, and the two zeros are
  one: a zero divisor counts as \<open>+0\<close>.
\<close>

datatype number = Fin real | PInf | NInf | NaN

instantiation number :: "{plus, uminus, times, ord}"
begin

fun plus_number :: "number \<Rightarrow> number \<Rightarrow> number" where
  "plus_number NaN _ = NaN"
| "plus_number _ NaN = NaN"
| "plus_number (Fin a) (Fin b) = Fin (a + b)"
| "plus_number PInf NInf = NaN"
| "plus_number NInf PInf = NaN"
| "plus_number PInf _ = PInf"
| "plus_number _ PInf = PInf"
| "plus_number NInf _ = NInf"
| "plus_number _ NInf = NInf"

fun uminus_number :: "number \<Rightarrow> number" where
  "uminus_number (Fin a) = Fin (- a)"
| "uminus_number PInf = NInf"
| "uminus_number NInf = PInf"
| "uminus_number NaN = NaN"

fun times_number :: "number \<Rightarrow> number \<Rightarrow> number" where
  "times_number NaN _ = NaN"
| "times_number _ NaN = NaN"
| "times_number (Fin a) (Fin b) = Fin (a * b)"
| "times_number PInf (Fin b) = (if b = 0 then NaN else if 0 < b then PInf else NInf)"
| "times_number NInf (Fin b) = (if b = 0 then NaN else if 0 < b then NInf else PInf)"
| "times_number (Fin a) PInf = (if a = 0 then NaN else if 0 < a then PInf else NInf)"
| "times_number (Fin a) NInf = (if a = 0 then NaN else if 0 < a then NInf else PInf)"
| "times_number PInf PInf = PInf"
| "times_number NInf NInf = PInf"
| "times_number PInf NInf = NInf"
| "times_number NInf PInf = NInf"

fun less_number :: "number \<Rightarrow> number \<Rightarrow> bool" where
  "less_number NaN _ = False"
| "less_number _ NaN = False"
| "less_number (Fin a) (Fin b) = (a < b)"
| "less_number _ NInf = False"
| "less_number PInf _ = False"
| "less_number NInf _ = True"
| "less_number _ PInf = True"

fun less_eq_number :: "number \<Rightarrow> number \<Rightarrow> bool" where
  "less_eq_number NaN _ = False"
| "less_eq_number _ NaN = False"
| "less_eq_number (Fin a) (Fin b) = (a \<le> b)"
| "less_eq_number NInf _ = True"
| "less_eq_number _ PInf = True"
| "less_eq_number _ NInf = False"
| "less_eq_number PInf _ = False"

instance ..

end

instantiation number :: "{minus, inverse}"
begin

definition minus_number :: "number \<Rightarrow> number \<Rightarrow> number" where
  "minus_number a b = a + (- b)"

fun divide_number :: "number \<Rightarrow> number \<Rightarrow> number" where
  "divide_number NaN _ = NaN"
| "divide_number _ NaN = NaN"
| "divide_number (Fin a) (Fin b) =
     (if b \<noteq> 0 then Fin (a / b)
      else if a = 0 then NaN else if 0 < a then PInf else NInf)"
| "divide_number (Fin a) PInf = Fin 0"
| "divide_number (Fin a) NInf = Fin 0"
| "divide_number PInf (Fin b) = (if 0 \<le> b then PInf else NInf)"
| "divide_number NInf (Fin b) = (if 0 \<le> b then NInf else PInf)"
| "divide_number _ _ = NaN"

fun inverse_number :: "number \<Rightarrow> number" where
  "inverse_number (Fin b) = (if b \<noteq> 0 then Fin (1 / b) else PInf)"
| "inverse_number NaN = NaN"
| "inverse_number _ = Fin 0"

instance ..

end

text \<open>The functions of \<open>Math\<close> that the recognizer calls.\<close>

fun Math_sqrt :: "number \<Rightarrow> number" where
  "Math_sqrt (Fin a) = (if a < 0 then NaN else Fin (sqrt a))"
| "Math_sqrt PInf = PInf"
| "Math_sqrt _ = NaN"

fun Math_abs :: "number \<Rightarrow> number" where
  "Math_abs (Fin a) = Fin \<bar>a\<bar>"
| "Math_abs NaN = NaN"
| "Math_abs _ = PInf"

fun Math_min :: "number \<Rightarrow> number \<Rightarrow> number" where
  "Math_min NaN _ = NaN"
| "Math_min _ NaN = NaN"
| "Math_min a b = (if a < b then a else b)"

fun Math_max :: "number \<Rightarrow> number \<Rightarrow> number" where
  "Math_max NaN _ = NaN"
| "Math_max _ NaN = NaN"
| "Math_max a b = (if a < b then b else a)"

fun Math_cos :: "number \<Rightarrow> number" where
  "Math_cos (Fin a) = Fin (cos a)"
| "Math_cos _ = NaN"

fun Math_sin :: "number \<Rightarrow> number" where
  "Math_sin (Fin a) = Fin (sin a)"
| "Math_sin _ = NaN"

fun Math_atan :: "number \<Rightarrow> number" where
  "Math_atan (Fin a) = Fin (arctan a)"
| "Math_atan PInf = Fin (pi / 2)"
| "Math_atan NInf = Fin (- pi / 2)"
| "Math_atan NaN = NaN"

fun Math_acos :: "number \<Rightarrow> number" where
  "Math_acos (Fin a) = (if - 1 \<le> a \<and> a \<le> 1 then Fin (arccos a) else NaN)"
| "Math_acos _ = NaN"

fun Math_atan2 :: "number \<Rightarrow> number \<Rightarrow> number" where
  "Math_atan2 NaN _ = NaN"
| "Math_atan2 _ NaN = NaN"
| "Math_atan2 (Fin b) (Fin a) =
     (if 0 < a then Fin (arctan (b / a))
      else if a < 0 then (if 0 \<le> b then Fin (arctan (b / a) + pi) else Fin (arctan (b / a) - pi))
      else if 0 < b then Fin (pi / 2) else if b < 0 then Fin (- pi / 2) else Fin 0)"
| "Math_atan2 (Fin b) PInf = Fin 0"
| "Math_atan2 (Fin b) NInf = (if 0 \<le> b then Fin pi else Fin (- pi))"
| "Math_atan2 PInf (Fin a) = Fin (pi / 2)"
| "Math_atan2 NInf (Fin a) = Fin (- pi / 2)"
| "Math_atan2 PInf PInf = Fin (pi / 4)"
| "Math_atan2 PInf NInf = Fin (3 * pi / 4)"
| "Math_atan2 NInf PInf = Fin (- pi / 4)"
| "Math_atan2 NInf NInf = Fin (- 3 * pi / 4)"

definition finite_number :: "number \<Rightarrow> bool" where
  "finite_number a = (case a of Fin _ \<Rightarrow> True | _ \<Rightarrow> False)"

section \<open>Data model\<close>

record point =
  p_x :: number
  p_y :: number

record rectangle =
  r_x :: number
  r_y :: number
  r_width :: number
  r_height :: number

datatype error = TypeError

subsection \<open>Constants\<close>

definition NUM_POINTS :: nat where
  "NUM_POINTS = 64"

definition SQUARE_SIZE :: number where
  "SQUARE_SIZE = Fin 250"

definition ORIGIN :: point where
  "ORIGIN = \<lparr>p_x = Fin 0, p_y = Fin 0\<rparr>"

definition DIAGONAL :: number where
  "DIAGONAL = Math_sqrt (SQUARE_SIZE * SQUARE_SIZE + SQUARE_SIZE * SQUARE_SIZE)"

definition HALF_DIAGONAL :: number where
  "HALF_DIAGONAL = Fin 0.5 * DIAGONAL"

definition deg2Rad :: "number \<Rightarrow> number" where
  "deg2Rad d = d * Fin pi / Fin 180"

definition ANGLE_RANGE :: number where
  "ANGLE_RANGE = deg2Rad (Fin 45)"

definition ANGLE_PRECISION :: number where
  "ANGLE_PRECISION = deg2Rad (Fin 2)"

definition PHI :: number where
  "PHI = Fin 0.5 * (Fin (- 1) + Math_sqrt (Fin 5))"

section \<open>Geometric helpers\<close>

definition distance :: "point \<Rightarrow> point \<Rightarrow> number" where
  "distance p1 p2 =
     (let dx = p_x p2 - p_x p1;
          dy = p_y p2 - p_y p1
      in Math_sqrt (dx * dx + dy * dy))"

definition pathLength :: "point list \<Rightarrow> number" where
  "pathLength points =
     foldl (\<lambda>d i. d + distance (points ! (i - 1)) (points ! i)) (Fin 0) [1..<length points]"

definition centroid :: "point list \<Rightarrow> point" where
  "centroid points =
     (let x = foldl (\<lambda>x point. x + p_x point) (Fin 0) points;
          y = foldl (\<lambda>y point. y + p_y point) (Fin 0) points
      in \<lparr>p_x = x / Fin (real (length points)), p_y = y / Fin (real (length points))\<rparr>)"

definition boundingBox :: "point list \<Rightarrow> rectangle" where
  "boundingBox points =
     (let minX = foldl (\<lambda>m point. Math_min m (p_x point)) PInf points;
          minY = foldl (\<lambda>m point. Math_min m (p_y point)) PInf points;
          maxX = foldl (\<lambda>m point. Math_max m (p_x point)) NInf points;
          maxY = foldl (\<lambda>m point. Math_max m (p_y point)) NInf points
      in \<lparr>r_x = minX, r_y = minY, r_width = maxX - minX, r_height = maxY - minY\<rparr>)"


text \<open>
  \<open>pathDistance\<close> reads \<open>pts2[i]\<close> for every index of \<open>pts1\<close>.  Past the end of
  \<open>pts2\<close> the read gives \<open>undefined\<close>, and \<open>distance\<close> raises a \<open>TypeError\<close>
  when it reads its field \<open>x\<close>.
\<close>

definition pathDistance :: "point list \<Rightarrow> point list \<Rightarrow> error + number" where
  "pathDistance pts1 pts2 =
     (if length pts2 < length pts1 then Inl TypeError
      else Inr (foldl (\<lambda>d i. d + distance (pts1 ! i) (pts2 ! i)) (Fin 0) [0..<length pts1]
                / Fin (real (length pts1))))"

section \<open>The normalization pipeline\<close>

text \<open>
  \<open>resample\<close> walks the array it is given and inserts every interpolated point into
  that same array (\<open>points.splice(i, 0, q)\<close>), so the loop returns the array as it
  leaves it together with the new points.  The loop has no bound of its own in the
  source; a run that never ends is the value \<open>None\<close>.
\<close>

partial_function (option) resample_loop ::
  "number \<Rightarrow> point list \<Rightarrow> nat \<Rightarrow> number \<Rightarrow> point list \<Rightarrow> (point list \<times> point list) option"
where
  "resample_loop interval points i travelled newPoints =
     (if i < length points then
        (let d = distance (points ! (i - 1)) (points ! i) in
         if interval \<le> travelled + d then
           (let qx = p_x (points ! (i - 1))
                       + ((interval - travelled) / d) * (p_x (points ! i) - p_x (points ! (i - 1)));
                qy = p_y (points ! (i - 1))
                       + ((interval - travelled) / d) * (p_y (points ! i) - p_y (points ! (i - 1)));
                q = \<lparr>p_x = qx, p_y = qy\<rparr>
            in resample_loop interval (take i points @ q # drop i points) (i + 1) (Fin 0)
                 (newPoints @ [q]))
         else resample_loop interval points (i + 1) (travelled + d) newPoints)
      else Some (points, newPoints))"

text \<open>
  For an empty array \<open>points[0]\<close> is \<open>undefined\<close> and the source returns the array
  \<open>[undefined]\<close>; the next step of the pipeline (\<open>centroid\<close>, reading \<open>point.x\<close>)
  raises a \<open>TypeError\<close> on it.  The model raises where the \<open>undefined\<close> is read.
  The result is the pair of the caller's array after the call and the new array.
\<close>

definition resample :: "point list \<Rightarrow> nat \<Rightarrow> (error + point list \<times> point list) option" where
  "resample points n =
     (case points of
        [] \<Rightarrow> Some (Inl TypeError)
      | p0 # _ \<Rightarrow>
          (let interval = pathLength points / Fin (real n - 1) in
           case resample_loop interval points 1 (Fin 0) [p0] of
             None \<Rightarrow> None
           | Some (points', newPoints) \<Rightarrow>
               if int (length newPoints) = int n - 1 then
                 Some (Inr (points',
                   newPoints @ [\<lparr>p_x = p_x (points' ! (length points' - 1)),
                                 p_y = p_y (points' ! (length points' - 1))\<rparr>]))
               else Some (Inr (points', newPoints))))"

definition indicativeAngle :: "point list \<Rightarrow> error + number" where
  "indicativeAngle points =
     (case points of
        [] \<Rightarrow> Inl TypeError
      | p0 # _ \<Rightarrow>
          (let c = centroid points in Inr (Math_atan2 (p_y c - p_y p0) (p_x c - p_x p0))))"

definition rotateBy :: "point list \<Rightarrow> number \<Rightarrow> point list" where
  "rotateBy points radians =
     (let c = centroid points;
          cosr = Math_cos radians;
          sinr = Math_sin radians
      in map (\<lambda>point.
            \<lparr>p_x = (p_x point - p_x c) * cosr - (p_y point - p_y c) * sinr + p_x c,
             p_y = (p_x point - p_x c) * sinr + (p_y point - p_y c) * cosr + p_y c\<rparr>) points)"

definition scaleTo :: "point list \<Rightarrow> number \<Rightarrow> point list" where
  "scaleTo points sz =
     (let box = boundingBox points
      in map (\<lambda>point.
            \<lparr>p_x = p_x point * (sz / r_width box),
             p_y = p_y point * (sz / r_height box)\<rparr>) points)"

definition translateTo :: "point list \<Rightarrow> point \<Rightarrow> point list" where
  "translateTo points pt =
     (let c = centroid points
      in map (\<lambda>point.
            \<lparr>p_x = p_x point + p_x pt - p_x c,
             p_y = p_y point + p_y pt - p_y c\<rparr>) points)"

definition vectorize :: "point list \<Rightarrow> number list" where
  "vectorize points =
     (let vector = concat (map (\<lambda>point. [p_x point, p_y point]) points);
          total = foldl (\<lambda>acc point. acc + (p_x point * p_x point + p_y point * p_y point))
                  (Fin 0) points;
          magnitude = Math_sqrt total
      in map (\<lambda>v. v / magnitude) vector)"


section \<open>Arrays, templates and the recognizer\<close>

text \<open>
  A \<open>Point[]\<close> is a mutable object: \<open>resample\<close> changes the array it is given, and
  \<open>getTemplatesByName\<close> hands out the stored templates themselves.  Arrays of points
  therefore live in a heap and are named by references; a new array is allocated at the
  end of the heap.  Point objects and vectors are never changed after they are built and
  are values.
\<close>

type_synonym ref = nat

type_synonym heap = "point list list"

definition alloc :: "heap \<Rightarrow> point list \<Rightarrow> ref \<times> heap" where
  "alloc h arr = (length h, h @ [arr])"

record template =
  t_name :: string
  t_points :: ref
  t_vector :: "number list"

text \<open>The field \<open>time\<close> of a result is wall-clock time and is left out.\<close>

record recognitionResult =
  res_name :: string
  res_score :: number

record recognizer =
  templates :: "template list"

text \<open>
  Every function that can raise returns the value or the error together with the heap
  (and the recognizer) as the call leaves them; \<open>None\<close> is a call that never returns.
\<close>

definition createTemplate :: "string \<Rightarrow> ref \<Rightarrow> heap \<Rightarrow> ((error + template) \<times> heap) option" where
  "createTemplate name points h =
     (case resample (h ! points) NUM_POINTS of
        None \<Rightarrow> None
      | Some (Inl e) \<Rightarrow> Some (Inl e, h)
      | Some (Inr (points', resampled)) \<Rightarrow>
          (let h1 = h[points := points'] in
           case indicativeAngle resampled of
             Inl e \<Rightarrow> Some (Inl e, h1)
           | Inr radians \<Rightarrow>
               (let rotated = rotateBy resampled (- radians);
                    scaled = scaleTo rotated SQUARE_SIZE;
                    processedPoints = translateTo scaled ORIGIN;
                    vector = vectorize processedPoints;
                    (r, h2) = alloc h1 processedPoints
                in Some (Inr \<lparr>t_name = name, t_points = r, t_vector = vector\<rparr>, h2))))"

section \<open>The two matchers\<close>

text \<open>
  A read past the end of a number array gives \<open>undefined\<close>, which arithmetic turns
  into \<open>NaN\<close>.
\<close>

definition num_at :: "number list \<Rightarrow> nat \<Rightarrow> number" where
  "num_at v i = (if i < length v then v ! i else NaN)"

definition optimalCosineDistance :: "number list \<Rightarrow> number list \<Rightarrow> number" where
  "optimalCosineDistance v1 v2 =
     (let idx = map (\<lambda>k. 2 * k) [0..<(length v1 + 1) div 2];
          a = foldl (\<lambda>a i. a + (num_at v1 i * num_at v2 i + num_at v1 (i + 1) * num_at v2 (i + 1)))
                (Fin 0) idx;
          b = foldl (\<lambda>b i. b + (num_at v1 i * num_at v2 (i + 1) - num_at v1 (i + 1) * num_at v2 i))
                (Fin 0) idx;
          angle = Math_atan (b / a)
      in Math_acos (a * Math_cos angle + b * Math_sin angle))"

definition distanceAtAngle :: "heap \<Rightarrow> point list \<Rightarrow> template \<Rightarrow> number \<Rightarrow> error + number" where
  "distanceAtAngle h points template radians =
     (let newPoints = rotateBy points radians
      in pathDistance newPoints (h ! t_points template))"

text \<open>
  The state of the golden-section search: the bracket \<open>a\<close>, \<open>b\<close>, the two interior
  angles and the distances at them.
\<close>

record search =
  s_a :: number
  s_b :: number
  s_x1 :: number
  s_f1 :: number
  s_x2 :: number
  s_f2 :: number

partial_function (option) bestAngle_loop ::
  "(number \<Rightarrow> error + number) \<Rightarrow> number \<Rightarrow> search \<Rightarrow> (error + search) option"
where
  "bestAngle_loop f threshold s =
     (if threshold < Math_abs (s_b s - s_a s) then
        (if s_f1 s < s_f2 s then
           (let b = s_x2 s;
                x2 = s_x1 s;
                f2 = s_f1 s;
                x1 = PHI * s_a s + (Fin 1 - PHI) * b
            in case f x1 of
                 Inl e \<Rightarrow> Some (Inl e)
               | Inr f1 \<Rightarrow>
                   bestAngle_loop f threshold
                     \<lparr>s_a = s_a s, s_b = b, s_x1 = x1, s_f1 = f1, s_x2 = x2, s_f2 = f2\<rparr>)
         else
           (let a = s_x1 s;
                x1 = s_x2 s;
                f1 = s_f2 s;
                x2 = (Fin 1 - PHI) * a + PHI * s_b s
            in case f x2 of
                 Inl e \<Rightarrow> Some (Inl e)
               | Inr f2 \<Rightarrow>
                   bestAngle_loop f threshold
                     \<lparr>s_a = a, s_b = s_b s, s_x1 = x1, s_f1 = f1, s_x2 = x2, s_f2 = f2\<rparr>))
      else Some (Inr s))"

definition bestAngle_search ::
  "(number \<Rightarrow> error + number) \<Rightarrow> number \<Rightarrow> number \<Rightarrow> number \<Rightarrow> (error + search) option" where
  "bestAngle_search f a b threshold =
     (let x1 = PHI * a + (Fin 1 - PHI) * b in
      case f x1 of
        Inl e \<Rightarrow> Some (Inl e)
      | Inr f1 \<Rightarrow>
          (let x2 = (Fin 1 - PHI) * a + PHI * b in
           case f x2 of
             Inl e \<Rightarrow> Some (Inl e)
           | Inr f2 \<Rightarrow>
               bestAngle_loop f threshold
                 \<lparr>s_a = a, s_b = b, s_x1 = x1, s_f1 = f1, s_x2 = x2, s_f2 = f2\<rparr>))"

definition distanceAtBestAngle ::
  "heap \<Rightarrow> point list \<Rightarrow> template \<Rightarrow> number \<Rightarrow> number \<Rightarrow> number \<Rightarrow> (error + number) option" where
  "distanceAtBestAngle h points template a b threshold =
     (case bestAngle_search (distanceAtAngle h points template) a b threshold of
        None \<Rightarrow> None
      | Some (Inl e) \<Rightarrow> Some (Inl e)
      | Some (Inr s) \<Rightarrow> Some (Inr (Math_min (s_f1 s) (s_f2 s))))"


section \<open>The class \<open>DollarRecognizer\<close>\<close>

text \<open>
  The loop of \<open>recognize\<close> over the stored templates, from index \<open>i\<close> on;
  \<open>matchDistance\<close> is the part of its body that computes \<open>distance\<close>.  Every
  template made by \<open>createTemplate\<close> has a vector, and an array is truthy, so the test
  \<open>useProtractor && candidate.vector && this.templates[i].vector\<close> is the flag
  \<open>useProtractor\<close>.
\<close>

definition matchDistance ::
  "bool \<Rightarrow> heap \<Rightarrow> template \<Rightarrow> template \<Rightarrow> (error + number) option"
where
  "matchDistance useProtractor h candidate t =
     (if useProtractor then Some (Inr (optimalCosineDistance (t_vector t) (t_vector candidate)))
      else distanceAtBestAngle h (h ! t_points candidate) t
             (- ANGLE_RANGE) ANGLE_RANGE ANGLE_PRECISION)"

fun recognize_loop ::
  "bool \<Rightarrow> heap \<Rightarrow> template \<Rightarrow> template list \<Rightarrow> int \<Rightarrow> int \<Rightarrow> number \<Rightarrow> (error + int \<times> number) option"
where
  "recognize_loop useProtractor h candidate [] i bestMatch bestDistance =
     Some (Inr (bestMatch, bestDistance))"
| "recognize_loop useProtractor h candidate (t # ts) i bestMatch bestDistance =
     (case matchDistance useProtractor h candidate t of
        None \<Rightarrow> None
      | Some (Inl e) \<Rightarrow> Some (Inl e)
      | Some (Inr d) \<Rightarrow>
          (if d < bestDistance then recognize_loop useProtractor h candidate ts (i + 1) i d
           else recognize_loop useProtractor h candidate ts (i + 1) bestMatch bestDistance))"

definition noMatch :: recognitionResult where
  "noMatch = \<lparr>res_name = ''No match'', res_score = Fin 0\<rparr>"

definition recognize ::
  "ref \<Rightarrow> bool \<Rightarrow> recognizer \<times> heap \<Rightarrow> ((error + recognitionResult) \<times> recognizer \<times> heap) option"
where
  "recognize points useProtractor w =
     (case w of (this, h) \<Rightarrow>
      if length (h ! points) < 2 then Some (Inr noMatch, this, h)
      else
        case createTemplate [] points h of
          None \<Rightarrow> None
        | Some (Inl e, h') \<Rightarrow> Some (Inl e, this, h')
        | Some (Inr candidate, h') \<Rightarrow>
            (case recognize_loop useProtractor h' candidate (templates this) 0 (- 1) PInf of
               None \<Rightarrow> None
             | Some (Inl e) \<Rightarrow> Some (Inl e, this, h')
             | Some (Inr (bestMatch, bestDistance)) \<Rightarrow>
                 if bestMatch = - 1 then Some (Inr noMatch, this, h')
                 else
                   (let score = (if useProtractor then Fin 1 - bestDistance
                                 else Fin 1 - bestDistance / HALF_DIAGONAL)
                    in Some (Inr \<lparr>res_name = t_name (templates this ! nat bestMatch),
                                   res_score = Math_max (Fin 0) score\<rparr>, this, h'))))"

definition addGesture ::
  "string \<Rightarrow> ref \<Rightarrow> recognizer \<times> heap \<Rightarrow> ((error + nat) \<times> recognizer \<times> heap) option"
where
  "addGesture name points w =
     (case w of (this, h) \<Rightarrow>
      case createTemplate name points h of
        None \<Rightarrow> None
      | Some (Inl e, h') \<Rightarrow> Some (Inl e, this, h')
      | Some (Inr template, h') \<Rightarrow>
          (let this' = this\<lparr>templates := templates this @ [template]\<rparr>
           in Some (Inr (length (filter (\<lambda>t. t_name t = name) (templates this'))), this', h')))"

definition loadDefaultTemplates :: "recognizer \<Rightarrow> recognizer" where
  "loadDefaultTemplates this = this"

definition deleteUserGestures :: "recognizer \<Rightarrow> recognizer" where
  "deleteUserGestures this = loadDefaultTemplates (this\<lparr>templates := []\<rparr>)"




definition removeTemplatesByName :: "string \<Rightarrow> recognizer \<Rightarrow> recognizer" where
  "removeTemplatesByName name this =
     this\<lparr>templates := filter (\<lambda>t. t_name t \<noteq> name) (templates this)\<rparr>"

subsection \<open>Export and import\<close>



datatype points_field = NoPoints | NotArray | Points ref

record entry =
  e_name :: "string option"
  e_points :: points_field
  e_vector :: "number list option"



fun import_loop ::
  "entry list \<Rightarrow> recognizer \<times> heap \<Rightarrow> ((error + unit) \<times> recognizer \<times> heap) option"
where
  "import_loop [] w = Some (Inr (), w)"
| "import_loop (template # rest) w =
     (case (e_name template, e_points template) of
        (Some name, Points points) \<Rightarrow>
          (if name \<noteq> [] then
             (case addGesture name points w of
                None \<Rightarrow> None
              | Some (Inl e, w') \<Rightarrow> Some (Inl e, w')
              | Some (Inr _, w') \<Rightarrow> import_loop rest w')
           else import_loop rest w)
      | _ \<Rightarrow> import_loop rest w)"

definition importTemplates ::
  "entry list \<Rightarrow> recognizer \<times> heap \<Rightarrow> ((error + unit) \<times> recognizer \<times> heap) option"
where
  "importTemplates entries w =
     (case w of (this, h) \<Rightarrow>
      import_loop entries (loadDefaultTemplates (this\<lparr>templates := []\<rparr>), h))"


section \<open>Notions used in the proofs\<close>

text \<open>
  A point is finite when both coordinates are real numbers.  On finite points the
  distance and the path length are the real numbers \<open>rdist\<close> and \<open>rlen\<close>.
\<close>

definition finite_point :: "point \<Rightarrow> bool" where
  "finite_point p = (finite_number (p_x p) \<and> finite_number (p_y p))"

definition real_of :: "number \<Rightarrow> real" where
  "real_of a = (case a of Fin r \<Rightarrow> r | _ \<Rightarrow> 0)"

definition rdist :: "point \<Rightarrow> point \<Rightarrow> real" where
  "rdist p q =
     sqrt ((real_of (p_x q) - real_of (p_x p))\<^sup>2 + (real_of (p_y q) - real_of (p_y p))\<^sup>2)"

fun rlen :: "point list \<Rightarrow> real" where
  "rlen (p # q # ps) = rdist p q + rlen (q # ps)"
| "rlen _ = 0"

text \<open>The point that \<open>resample\<close> interpolates between \<open>p\<close> and \<open>p'\<close>.\<close>

definition emitted :: "number \<Rightarrow> number \<Rightarrow> point \<Rightarrow> point \<Rightarrow> point" where
  "emitted interval travelled p p' =
     (let d = distance p p' in
      \<lparr>p_x = p_x p + ((interval - travelled) / d) * (p_x p' - p_x p),
       p_y = p_y p + ((interval - travelled) / d) * (p_y p' - p_y p)\<rparr>)"

text \<open>The golden ratio as a real number, and a well-formed state of the search.\<close>

definition phi :: real where
  "phi = (sqrt 5 - 1) / 2"

definition golden :: "(number \<Rightarrow> error + number) \<Rightarrow> real \<Rightarrow> real \<Rightarrow> search \<Rightarrow> bool" where
  "golden f a b s =
     (s_a s = Fin a \<and> s_b s = Fin b \<and>
      s_x1 s = Fin (phi * a + (1 - phi) * b) \<and>
      s_x2 s = Fin ((1 - phi) * a + phi * b) \<and>
      f (s_x1 s) = Inr (s_f1 s) \<and> f (s_x2 s) = Inr (s_f2 s))"

text \<open>A distance is never negative: it is a real number from 0 on, \<open>Infinity\<close> or \<open>NaN\<close>.\<close>

definition distance_like :: "number \<Rightarrow> bool" where
  "distance_like a = (case a of Fin r \<Rightarrow> 0 \<le> r | PInf \<Rightarrow> True | NaN \<Rightarrow> True | NInf \<Rightarrow> False)"

text \<open>The steps of \<open>createTemplate\<close> that follow \<open>resample\<close>.\<close>

definition normalized :: "point list \<Rightarrow> point list" where
  "normalized resampled =
     (case indicativeAngle resampled of
        Inl e \<Rightarrow> []
      | Inr radians \<Rightarrow> translateTo (scaleTo (rotateBy resampled (- radians)) SQUARE_SIZE) ORIGIN)"

text \<open>A stroke with a corner: one unit to the right, then 62 units along \<open>y\<close>.\<close>

definition corner_stroke :: "point list" where
  "corner_stroke =
     [\<lparr>p_x = Fin 0, p_y = Fin 0\<rparr>, \<lparr>p_x = Fin 1, p_y = Fin 0\<rparr>, \<lparr>p_x = Fin 1, p_y = Fin 62\<rparr>]"


section \<open>Arithmetic of numbers\<close>

lemma minus_Fin [simp]: "Fin a - Fin b = Fin (a - b)"
  by (simp add: minus_number_def)

lemma finite_number_Fin: "finite_number a \<Longrightarrow> a = Fin (real_of a)"
  by (cases a) (simp_all add: finite_number_def real_of_def)

lemma finite_number_simps [simp]:
  "finite_number (Fin r)" "\<not> finite_number NaN" "\<not> finite_number PInf" "\<not> finite_number NInf"
  by (simp_all add: finite_number_def)

lemma real_of_Fin [simp]: "real_of (Fin r) = r"
  by (simp add: real_of_def)

lemma Math_min_Fin: "Math_min (Fin a) (Fin b) = Fin (min a b)"
  by (simp add: min_def)

lemma Math_max_Fin: "Math_max (Fin a) (Fin b) = Fin (max a b)"
  by (simp add: max_def)

lemma NaN_absorbs [simp]:
  "a + NaN = NaN" "NaN + a = NaN" "a * NaN = NaN" "NaN * a = NaN"
  "a - NaN = NaN" "NaN - a = NaN" "a / NaN = NaN" "NaN / a = NaN" "- NaN = NaN"
  by (cases a; simp add: minus_number_def)+



lemma not_le_NaN [simp]: "\<not> a \<le> NaN"
  by (cases a) simp_all

section \<open>Distances and path lengths of finite points\<close>

lemma finite_point_cases:
  assumes "finite_point p"
  obtains x y where "p_x p = Fin x" "p_y p = Fin y"
  using assms finite_number_Fin unfolding finite_point_def by blast

lemma distance_finite:
  assumes "finite_point p" "finite_point q"
  shows "distance p q = Fin (rdist p q)"
proof -
  from assms(1) obtain x y where p: "p_x p = Fin x" "p_y p = Fin y" by (rule finite_point_cases)
  from assms(2) obtain u v where q: "p_x q = Fin u" "p_y q = Fin v" by (rule finite_point_cases)
  have "0 \<le> (u - x) * (u - x) + (v - y) * (v - y)" by simp
  then show ?thesis
    by (simp add: distance_def rdist_def p q real_of_def power2_eq_square not_less)
qed

lemma rdist_nonneg: "0 \<le> rdist p q"
  by (simp add: rdist_def)

lemma rlen_nonneg: "0 \<le> rlen ps"
  by (induction ps rule: rlen.induct) (simp_all add: rdist_nonneg)

lemma rlen_snoc: "ps \<noteq> [] \<Longrightarrow> rlen (ps @ [p]) = rlen ps + rdist (last ps) p"
  by (induction ps rule: rlen.induct) simp_all

lemma pathLength_fold_finite:
  "\<forall>p \<in> set ps. finite_point p \<Longrightarrow>
   foldl (\<lambda>d i. d + distance (ps ! (i - 1)) (ps ! i)) (Fin 0) [1..<length ps] = Fin (rlen ps)"
proof (induction ps rule: rev_induct)
  case Nil
  then show ?case by simp
next
  case (snoc p ps)
  show ?case
  proof (cases "ps = []")
    case True
    then show ?thesis by simp
  next
    case False
    then have len: "1 \<le> length ps" by (cases ps) simp_all
    have eq: "foldl (\<lambda>d i. d + distance ((ps @ [p]) ! (i - 1)) ((ps @ [p]) ! i)) (Fin 0) [1..<length ps]
      = foldl (\<lambda>d i. d + distance (ps ! (i - 1)) (ps ! i)) (Fin 0) [1..<length ps]"
      by (rule foldl_cong) (auto simp: nth_append)
    have lastp: "(ps @ [p]) ! (length ps - 1) = last ps"
      using False by (simp add: nth_append last_conv_nth)
    have fl: "finite_point (last ps)" "finite_point p" using snoc.prems False by auto
    have "[1..<length (ps @ [p])] = [1..<length ps] @ [length ps]"
      using len by simp
    then show ?thesis
      using snoc eq lastp distance_finite [OF fl] rlen_snoc [OF False, of p]
      by simp
  qed
qed

lemma pathLength_finite:
  "\<forall>p \<in> set ps. finite_point p \<Longrightarrow> pathLength ps = Fin (rlen ps)"
  unfolding pathLength_def by (rule pathLength_fold_finite)


section \<open>Sums, minima and maxima of finite numbers\<close>

lemma foldl_plus_finite:
  "\<forall>p \<in> set ps. finite_number (g p) \<Longrightarrow>
   foldl (\<lambda>a p. a + g p) (Fin a) ps = Fin (a + sum_list (map (\<lambda>p. real_of (g p)) ps))"
proof (induction ps arbitrary: a)
  case Nil
  then show ?case by simp
next
  case (Cons p ps)
  then obtain r where "g p = Fin r" using finite_number_Fin by (metis list.set_intros(1))
  with Cons show ?case by (simp add: add.assoc)
qed

lemma foldl_min_finite:
  "\<forall>p \<in> set ps. finite_number (g p) \<Longrightarrow>
   \<exists>m. foldl (\<lambda>m p. Math_min m (g p)) (Fin a) ps = Fin m \<and> m \<le> a \<and>
     (\<forall>p \<in> set ps. m \<le> real_of (g p)) \<and> (m = a \<or> (\<exists>p \<in> set ps. m = real_of (g p)))"
proof (induction ps arbitrary: a)
  case Nil
  then show ?case by simp
next
  case (Cons p ps)
  then obtain r where r: "g p = Fin r" using finite_number_Fin by (metis list.set_intros(1))
  from Cons.prems have "\<forall>p \<in> set ps. finite_number (g p)" by simp
  from Cons.IH [OF this, of "min a r"]
  obtain m where m: "foldl (\<lambda>m p. Math_min m (g p)) (Fin (min a r)) ps = Fin m" "m \<le> min a r"
    "\<forall>p \<in> set ps. m \<le> real_of (g p)" "m = min a r \<or> (\<exists>p \<in> set ps. m = real_of (g p))"
    by blast
  have "foldl (\<lambda>m p. Math_min m (g p)) (Fin a) (p # ps) = Fin m"
    using m(1) r by (simp del: Math_min.simps add: Math_min_Fin)
  moreover have "m \<le> a" using m(2) by simp
  moreover have "\<forall>q \<in> set (p # ps). m \<le> real_of (g q)" using m(2,3) r by simp
  moreover have "m = a \<or> (\<exists>q \<in> set (p # ps). m = real_of (g q))"
    using m(4) r by (auto simp: min_def split: if_splits)
  ultimately show ?case by blast
qed

lemma foldl_max_finite:
  "\<forall>p \<in> set ps. finite_number (g p) \<Longrightarrow>
   \<exists>m. foldl (\<lambda>m p. Math_max m (g p)) (Fin a) ps = Fin m \<and> a \<le> m \<and>
     (\<forall>p \<in> set ps. real_of (g p) \<le> m) \<and> (m = a \<or> (\<exists>p \<in> set ps. m = real_of (g p)))"
proof (induction ps arbitrary: a)
  case Nil
  then show ?case by simp
next
  case (Cons p ps)
  then obtain r where r: "g p = Fin r" using finite_number_Fin by (metis list.set_intros(1))
  from Cons.prems have "\<forall>p \<in> set ps. finite_number (g p)" by simp
  from Cons.IH [OF this, of "max a r"]
  obtain m where m: "foldl (\<lambda>m p. Math_max m (g p)) (Fin (max a r)) ps = Fin m" "max a r \<le> m"
    "\<forall>p \<in> set ps. real_of (g p) \<le> m" "m = max a r \<or> (\<exists>p \<in> set ps. m = real_of (g p))"
    by blast
  have "foldl (\<lambda>m p. Math_max m (g p)) (Fin a) (p # ps) = Fin m"
    using m(1) r by (simp del: Math_max.simps add: Math_max_Fin)
  moreover have "a \<le> m" using m(2) by simp
  moreover have "\<forall>q \<in> set (p # ps). real_of (g q) \<le> m" using m(2,3) r by simp
  moreover have "m = a \<or> (\<exists>q \<in> set (p # ps). m = real_of (g q))"
    using m(4) r by (auto simp: max_def split: if_splits)
  ultimately show ?case by blast
qed

lemma extent_finite:
  assumes "\<forall>p \<in> set ps. finite_number (g p)" "ps \<noteq> []"
  shows "\<exists>lo hi. foldl (\<lambda>m p. Math_min m (g p)) PInf ps = Fin lo \<and>
     foldl (\<lambda>m p. Math_max m (g p)) NInf ps = Fin hi \<and>
     (\<forall>p \<in> set ps. lo \<le> real_of (g p) \<and> real_of (g p) \<le> hi) \<and>
     (\<exists>p \<in> set ps. lo = real_of (g p)) \<and> (\<exists>p \<in> set ps. hi = real_of (g p))"
proof -
  from assms(2) obtain p rest where ps: "ps = p # rest" by (cases ps) simp_all
  from assms(1) ps obtain r where r: "g p = Fin r" using finite_number_Fin by (metis list.set_intros(1))
  from assms(1) ps have fr: "\<forall>p \<in> set rest. finite_number (g p)" by simp
  from foldl_min_finite [OF fr, of r] obtain lo where lo:
    "foldl (\<lambda>m p. Math_min m (g p)) (Fin r) rest = Fin lo" "lo \<le> r"
    "\<forall>p \<in> set rest. lo \<le> real_of (g p)" "lo = r \<or> (\<exists>p \<in> set rest. lo = real_of (g p))"
    by blast
  from foldl_max_finite [OF fr, of r] obtain hi where hi:
    "foldl (\<lambda>m p. Math_max m (g p)) (Fin r) rest = Fin hi" "r \<le> hi"
    "\<forall>p \<in> set rest. real_of (g p) \<le> hi" "hi = r \<or> (\<exists>p \<in> set rest. hi = real_of (g p))"
    by blast
  have "foldl (\<lambda>m p. Math_min m (g p)) PInf ps = Fin lo" using lo(1) r ps by simp
  moreover have "foldl (\<lambda>m p. Math_max m (g p)) NInf ps = Fin hi" using hi(1) r ps by simp
  moreover have "\<forall>q \<in> set ps. lo \<le> real_of (g q) \<and> real_of (g q) \<le> hi"
    using lo(2,3) hi(2,3) r ps by simp
  moreover have "\<exists>q \<in> set ps. lo = real_of (g q)" using lo(4) r ps by auto
  moreover have "\<exists>q \<in> set ps. hi = real_of (g q)" using hi(4) r ps by auto
  ultimately show ?thesis by blast
qed

section \<open>The pipeline steps on finite points\<close>

lemma centroid_finite:
  assumes "\<forall>p \<in> set ps. finite_point p" "ps \<noteq> []"
  shows "centroid ps =
     \<lparr>p_x = Fin (sum_list (map (\<lambda>p. real_of (p_x p)) ps) / real (length ps)),
      p_y = Fin (sum_list (map (\<lambda>p. real_of (p_y p)) ps) / real (length ps))\<rparr>"
proof -
  have "\<forall>p \<in> set ps. finite_number (p_x p)" "\<forall>p \<in> set ps. finite_number (p_y p)"
    using assms(1) by (simp_all add: finite_point_def)
  then show ?thesis
    using assms(2) by (simp add: centroid_def foldl_plus_finite Let_def)
qed

lemma rotateBy_finite:
  assumes "\<forall>p \<in> set ps. finite_point p" "ps \<noteq> []" "centroid ps = \<lparr>p_x = Fin cx, p_y = Fin cy\<rparr>"
  shows "rotateBy ps (Fin r) =
     map (\<lambda>p. \<lparr>p_x = Fin ((real_of (p_x p) - cx) * cos r - (real_of (p_y p) - cy) * sin r + cx),
               p_y = Fin ((real_of (p_x p) - cx) * sin r + (real_of (p_y p) - cy) * cos r + cy)\<rparr>) ps"
proof -
  have "\<And>p. p \<in> set ps \<Longrightarrow>
     \<lparr>p_x = (p_x p - Fin cx) * Fin (cos r) - (p_y p - Fin cy) * Fin (sin r) + Fin cx,
      p_y = (p_x p - Fin cx) * Fin (sin r) + (p_y p - Fin cy) * Fin (cos r) + Fin cy\<rparr>
   = \<lparr>p_x = Fin ((real_of (p_x p) - cx) * cos r - (real_of (p_y p) - cy) * sin r + cx),
      p_y = Fin ((real_of (p_x p) - cx) * sin r + (real_of (p_y p) - cy) * cos r + cy)\<rparr>"
  proof -
    fix p assume "p \<in> set ps"
    with assms(1) have "finite_point p" by simp
    then obtain x y where "p_x p = Fin x" "p_y p = Fin y" by (rule finite_point_cases)
    then show "\<lparr>p_x = (p_x p - Fin cx) * Fin (cos r) - (p_y p - Fin cy) * Fin (sin r) + Fin cx,
      p_y = (p_x p - Fin cx) * Fin (sin r) + (p_y p - Fin cy) * Fin (cos r) + Fin cy\<rparr>
   = \<lparr>p_x = Fin ((real_of (p_x p) - cx) * cos r - (real_of (p_y p) - cy) * sin r + cx),
      p_y = Fin ((real_of (p_x p) - cx) * sin r + (real_of (p_y p) - cy) * cos r + cy)\<rparr>"
      by simp
  qed
  then show ?thesis by (simp add: rotateBy_def assms(3) Let_def)
qed

lemma boundingBox_finite:
  assumes "\<forall>p \<in> set ps. finite_point p" "ps \<noteq> []"
  shows "\<exists>w h. r_width (boundingBox ps) = Fin w \<and> r_height (boundingBox ps) = Fin h \<and>
     (\<forall>p \<in> set ps. \<forall>q \<in> set ps. \<bar>real_of (p_x p) - real_of (p_x q)\<bar> \<le> w \<and>
         \<bar>real_of (p_y p) - real_of (p_y q)\<bar> \<le> h) \<and>
     (w = 0 \<longrightarrow> (\<forall>p \<in> set ps. \<forall>q \<in> set ps. p_x p = p_x q)) \<and>
     (h = 0 \<longrightarrow> (\<forall>p \<in> set ps. \<forall>q \<in> set ps. p_y p = p_y q)) \<and>
     (\<exists>p \<in> set ps. \<exists>q \<in> set ps. w = real_of (p_x p) - real_of (p_x q)) \<and>
     (\<exists>p \<in> set ps. \<exists>q \<in> set ps. h = real_of (p_y p) - real_of (p_y q))"
proof -
  have fx: "\<forall>p \<in> set ps. finite_number (p_x p)" and fy: "\<forall>p \<in> set ps. finite_number (p_y p)"
    using assms(1) by (simp_all add: finite_point_def)
  from extent_finite [OF fx assms(2)] obtain lx hx where x:
    "foldl (\<lambda>m p. Math_min m (p_x p)) PInf ps = Fin lx"
    "foldl (\<lambda>m p. Math_max m (p_x p)) NInf ps = Fin hx"
    "\<forall>p \<in> set ps. lx \<le> real_of (p_x p) \<and> real_of (p_x p) \<le> hx"
    "\<exists>p \<in> set ps. lx = real_of (p_x p)" "\<exists>p \<in> set ps. hx = real_of (p_x p)"
    by blast
  from extent_finite [OF fy assms(2)] obtain ly hy where y:
    "foldl (\<lambda>m p. Math_min m (p_y p)) PInf ps = Fin ly"
    "foldl (\<lambda>m p. Math_max m (p_y p)) NInf ps = Fin hy"
    "\<forall>p \<in> set ps. ly \<le> real_of (p_y p) \<and> real_of (p_y p) \<le> hy"
    "\<exists>p \<in> set ps. ly = real_of (p_y p)" "\<exists>p \<in> set ps. hy = real_of (p_y p)"
    by blast
  have w: "r_width (boundingBox ps) = Fin (hx - lx)" and h: "r_height (boundingBox ps) = Fin (hy - ly)"
    using x(1,2) y(1,2) by (simp_all add: boundingBox_def Let_def)
  have b: "\<forall>p \<in> set ps. \<forall>q \<in> set ps. \<bar>real_of (p_x p) - real_of (p_x q)\<bar> \<le> hx - lx \<and>
         \<bar>real_of (p_y p) - real_of (p_y q)\<bar> \<le> hy - ly"
  proof (intro ballI)
    fix p q assume "p \<in> set ps" "q \<in> set ps"
    with x(3) y(3) have "lx \<le> real_of (p_x p)" "real_of (p_x p) \<le> hx" "lx \<le> real_of (p_x q)"
      "real_of (p_x q) \<le> hx" "ly \<le> real_of (p_y p)" "real_of (p_y p) \<le> hy"
      "ly \<le> real_of (p_y q)" "real_of (p_y q) \<le> hy" by simp_all
    then show "\<bar>real_of (p_x p) - real_of (p_x q)\<bar> \<le> hx - lx \<and>
         \<bar>real_of (p_y p) - real_of (p_y q)\<bar> \<le> hy - ly" by linarith
  qed
  have zx: "hx - lx = 0 \<longrightarrow> (\<forall>p \<in> set ps. \<forall>q \<in> set ps. p_x p = p_x q)"
  proof (intro impI ballI)
    fix p q assume z: "hx - lx = 0" and pq: "p \<in> set ps" "q \<in> set ps"
    with b have "real_of (p_x p) = real_of (p_x q)" by fastforce
    moreover have "p_x p = Fin (real_of (p_x p))" "p_x q = Fin (real_of (p_x q))"
      using fx pq by (simp_all add: finite_number_Fin [symmetric])
    ultimately show "p_x p = p_x q" by simp
  qed
  have zy: "hy - ly = 0 \<longrightarrow> (\<forall>p \<in> set ps. \<forall>q \<in> set ps. p_y p = p_y q)"
  proof (intro impI ballI)
    fix p q assume z: "hy - ly = 0" and pq: "p \<in> set ps" "q \<in> set ps"
    with b have "real_of (p_y p) = real_of (p_y q)" by fastforce
    moreover have "p_y p = Fin (real_of (p_y p))" "p_y q = Fin (real_of (p_y q))"
      using fy pq by (simp_all add: finite_number_Fin [symmetric])
    ultimately show "p_y p = p_y q" by simp
  qed
  have ex: "\<exists>p \<in> set ps. \<exists>q \<in> set ps. hx - lx = real_of (p_x p) - real_of (p_x q)"
    using x(4,5) by blast
  have ey: "\<exists>p \<in> set ps. \<exists>q \<in> set ps. hy - ly = real_of (p_y p) - real_of (p_y q)"
    using y(4,5) by blast
  from w h b zx zy ex ey show ?thesis by blast
qed




lemma scaleTo_finite:
  assumes "\<forall>p \<in> set ps. finite_point p"
    and "r_width (boundingBox ps) = Fin w" "w \<noteq> 0" "r_height (boundingBox ps) = Fin h" "h \<noteq> 0"
  shows "\<forall>p \<in> set (scaleTo ps (Fin sz)). finite_point p"
proof
  fix q assume "q \<in> set (scaleTo ps (Fin sz))"
  then obtain p where p: "p \<in> set ps"
    "q = \<lparr>p_x = p_x p * (Fin sz / Fin w), p_y = p_y p * (Fin sz / Fin h)\<rparr>"
    by (auto simp: scaleTo_def assms(2,4) Let_def)
  from assms(1) p(1) have "finite_point p" by simp
  then obtain x y where "p_x p = Fin x" "p_y p = Fin y" by (rule finite_point_cases)
  with p(2) assms(3,5) show "finite_point q" by (simp add: finite_point_def)
qed

lemma translateTo_finite:
  assumes "\<forall>p \<in> set ps. finite_point p"
  shows "\<forall>p \<in> set (translateTo ps ORIGIN). finite_point p"
proof
  fix q assume q: "q \<in> set (translateTo ps ORIGIN)"
  then have ne: "ps \<noteq> []" by (auto simp: translateTo_def)
  from q obtain p where p: "p \<in> set ps"
    "q = \<lparr>p_x = p_x p + Fin 0 - p_x (centroid ps), p_y = p_y p + Fin 0 - p_y (centroid ps)\<rparr>"
    by (auto simp: translateTo_def ORIGIN_def Let_def)
  from assms p(1) have "finite_point p" by simp
  then obtain x y where "p_x p = Fin x" "p_y p = Fin y" by (rule finite_point_cases)
  with p(2) show "finite_point q"
    by (simp add: centroid_finite [OF assms ne] finite_point_def)
qed



lemma normalized_angle:
  "indicativeAngle ps = Inr radians \<Longrightarrow>
   normalized ps = translateTo (scaleTo (rotateBy ps (- radians)) SQUARE_SIZE) ORIGIN"
  by (simp add: normalized_def)

section \<open>The resampling loop\<close>

lemma resample_loop_exit:
  "\<not> i < length ps \<Longrightarrow> resample_loop interval ps i travelled new = Some (ps, new)"
  by (subst resample_loop.simps) simp

lemma resample_loop_skip:
  "i < length ps \<Longrightarrow> \<not> interval \<le> travelled + distance (ps ! (i - 1)) (ps ! i) \<Longrightarrow>
   resample_loop interval ps i travelled new =
   resample_loop interval ps (i + 1) (travelled + distance (ps ! (i - 1)) (ps ! i)) new"
  by (subst resample_loop.simps) (simp add: Let_def)

lemma resample_loop_emit:
  "i < length ps \<Longrightarrow> interval \<le> travelled + distance (ps ! (i - 1)) (ps ! i) \<Longrightarrow>
   resample_loop interval ps i travelled new =
   resample_loop interval
     (take i ps @ emitted interval travelled (ps ! (i - 1)) (ps ! i) # drop i ps) (i + 1) (Fin 0)
     (new @ [emitted interval travelled (ps ! (i - 1)) (ps ! i)])"
  by (subst resample_loop.simps) (simp add: Let_def emitted_def)

lemma emitted_finite:
  assumes "finite_point p" "finite_point p'" "0 < rdist p p'" "0 \<le> s" "s \<le> rdist p p'"
    "I - dR = s"
  shows "finite_point (emitted (Fin I) (Fin dR) p p')"
    and "rdist (emitted (Fin I) (Fin dR) p p') p' = rdist p p' - s"
proof -
  from assms(1) obtain x y where p: "p_x p = Fin x" "p_y p = Fin y" by (rule finite_point_cases)
  from assms(2) obtain u v where q: "p_x p' = Fin u" "p_y p' = Fin v" by (rule finite_point_cases)
  define dd where "dd = rdist p p'"
  define t where "t = s / dd"
  have dd: "0 < dd" "dd \<noteq> 0" using assms(3) by (simp_all add: dd_def)
  have em: "emitted (Fin I) (Fin dR) p p' = \<lparr>p_x = Fin (x + t * (u - x)), p_y = Fin (y + t * (v - y))\<rparr>"
    using dd assms(6) by (simp add: emitted_def distance_finite [OF assms(1,2)] p q t_def dd_def Let_def)
  show "finite_point (emitted (Fin I) (Fin dR) p p')"
    by (simp add: em finite_point_def finite_number_def)
  have t1: "t \<le> 1" "0 \<le> t" using assms(4,5) dd by (simp_all add: t_def dd_def)
  have ddsq: "dd = sqrt ((u - x)\<^sup>2 + (v - y)\<^sup>2)"
    by (simp add: dd_def rdist_def p q real_of_def)
  have "rdist (emitted (Fin I) (Fin dR) p p') p'
      = sqrt ((u - (x + t * (u - x)))\<^sup>2 + (v - (y + t * (v - y)))\<^sup>2)"
    by (simp add: em rdist_def q real_of_def)
  also have "(u - (x + t * (u - x)))\<^sup>2 + (v - (y + t * (v - y)))\<^sup>2
      = (1 - t)\<^sup>2 * ((u - x)\<^sup>2 + (v - y)\<^sup>2)"
    by (simp add: power2_eq_square algebra_simps)
  also have "sqrt ((1 - t)\<^sup>2 * ((u - x)\<^sup>2 + (v - y)\<^sup>2)) = (1 - t) * dd"
    using t1 by (simp add: real_sqrt_mult ddsq)
  also have "(1 - t) * dd = dd - s"
    using dd by (simp add: t_def algebra_simps)
  finally show "rdist (emitted (Fin I) (Fin dR) p p') p' = rdist p p' - s"
    by (simp add: dd_def)
qed


lemma rlen_drop_step:
  assumes "1 \<le> i" "i < length ps"
  shows "rlen (drop (i - 1) ps) = rdist (ps ! (i - 1)) (ps ! i) + rlen (drop i ps)"
proof -
  have "drop (i - 1) ps = ps ! (i - 1) # drop i ps"
    using assms Cons_nth_drop_Suc [of "i - 1" ps] by simp
  moreover have "drop i ps = ps ! i # drop (Suc i) ps"
    using assms Cons_nth_drop_Suc [of i ps] by simp
  ultimately show ?thesis by simp
qed

lemma resample_loop_positive:
  assumes I: "0 < I"
    and Q: "\<And>p p' dR. finite_point p \<Longrightarrow> finite_point p' \<Longrightarrow> Q p \<Longrightarrow> Q p' \<Longrightarrow>
       0 \<le> dR \<Longrightarrow> dR < I \<Longrightarrow> I \<le> dR + rdist p p' \<Longrightarrow> Q (emitted (Fin I) (Fin dR) p p')"
  shows "k = m + (length ps - i) \<Longrightarrow> \<forall>p \<in> set ps. finite_point p \<and> Q p \<Longrightarrow> 1 \<le> i \<Longrightarrow>
     i \<le> length ps \<Longrightarrow> 0 \<le> dR \<Longrightarrow> dR < I \<Longrightarrow>
     dR + rlen (drop (i - 1) ps) = real m * I \<Longrightarrow>
     \<exists>ps' new'. resample_loop (Fin I) ps i (Fin dR) new = Some (ps', new @ new') \<and>
        length new' = m \<and> length ps' = length ps + m \<and>
        (\<forall>p \<in> set ps'. finite_point p \<and> Q p) \<and> (\<forall>p \<in> set new'. finite_point p \<and> Q p)"
proof (induction k arbitrary: m ps i dR new)
  case 0
  then have "\<not> i < length ps" "m = 0" by simp_all
  then show ?case using 0 by (simp add: resample_loop_exit)
next
  case (Suc k)
  show ?case
  proof (cases "i < length ps")
    case False
    with Suc.prems have eq: "i = length ps" by simp
    then have "drop (i - 1) ps = [last ps]"
      using Suc.prems(3) by (cases ps rule: rev_cases) simp_all
    with Suc.prems have "real m * I < I" by simp
    with I have "real m < 1" by simp
    then have "m = 0" by simp
    with Suc.prems(1) eq show ?thesis by simp
  next
    case True
    define p where "p = ps ! (i - 1)"
    define p' where "p' = ps ! i"
    have fp: "finite_point p" "finite_point p'"
      using Suc.prems True by (simp_all add: p_def p'_def)
    have d: "distance p p' = Fin (rdist p p')" by (rule distance_finite [OF fp])
    have split: "rlen (drop (i - 1) ps) = rdist p p' + rlen (drop i ps)"
      unfolding p_def p'_def by (rule rlen_drop_step [OF Suc.prems(3) True])
    show ?thesis
    proof (cases "I \<le> dR + rdist p p'")
      case emit: True
      define q where "q = emitted (Fin I) (Fin dR) p p'"
      define ps1 where "ps1 = take i ps @ q # drop i ps"
      have pos: "0 < rdist p p'" using emit Suc.prems(6) by simp
      have s: "0 \<le> I - dR" "I - dR \<le> rdist p p'" using emit Suc.prems(6) by simp_all
      have fq: "finite_point q" and dq: "rdist q p' = rdist p p' - (I - dR)"
        unfolding q_def using emitted_finite [OF fp pos s refl] by simp_all
      have Qp: "Q p" "Q p'" using Suc.prems True by (simp_all add: p_def p'_def)
      have Qq: "Q q" unfolding q_def by (rule Q [OF fp Qp Suc.prems(5,6) emit])
      have unf: "resample_loop (Fin I) ps i (Fin dR) new
          = resample_loop (Fin I) ps1 (i + 1) (Fin 0) (new @ [q])"
        unfolding ps1_def q_def p_def p'_def
        using emit d by (intro resample_loop_emit [OF True]) (simp add: p_def p'_def)
      have dr: "drop i ps = p' # drop (Suc i) ps"
        using True Cons_nth_drop_Suc [of i ps] by (simp add: p'_def)
      have "drop i ps1 = q # drop i ps"
        using True by (simp add: ps1_def)
      then have rl: "rlen (drop (i + 1 - 1) ps1) = rdist q p' + rlen (drop i ps)"
        using dr by simp
      have "I \<le> real m * I" using Suc.prems(7) split emit rlen_nonneg [of "drop i ps"] by linarith
      with I have "1 \<le> real m" by simp
      then have m1: "1 \<le> m" by simp
      have inv: "0 + rlen (drop (i + 1 - 1) ps1) = real (m - 1) * I"
        using rl dq Suc.prems(7) split m1 by (simp add: of_nat_diff algebra_simps)
      have len1: "length ps1 = length ps + 1" by (simp add: ps1_def)
      have k: "k = (m - 1) + (length ps1 - (i + 1))"
        using Suc.prems(1) m1 len1 True by simp
      have fin1: "\<forall>p \<in> set ps1. finite_point p \<and> Q p"
        using Suc.prems(2) fq Qq by (auto simp: ps1_def dest: in_set_takeD in_set_dropD)
      from Suc.IH [OF k fin1 _ _ _ I inv, of "new @ [q]"] True len1
      obtain ps' new' where r: "resample_loop (Fin I) ps1 (i + 1) (Fin 0) (new @ [q]) = Some (ps', (new @ [q]) @ new')"
        "length new' = m - 1" "length ps' = length ps1 + (m - 1)"
        "\<forall>p \<in> set ps'. finite_point p \<and> Q p" "\<forall>p \<in> set new'. finite_point p \<and> Q p"
        by auto
      have "resample_loop (Fin I) ps i (Fin dR) new = Some (ps', new @ (q # new'))"
        using unf r(1) by simp
      moreover have "length (q # new') = m" using r(2) m1 by simp
      moreover have "length ps' = length ps + m" using r(3) len1 m1 by simp
      moreover have "\<forall>p \<in> set (q # new'). finite_point p \<and> Q p" using r(5) fq Qq by simp
      ultimately show ?thesis using r(4) by blast
    next
      case skip: False
      have unf: "resample_loop (Fin I) ps i (Fin dR) new
          = resample_loop (Fin I) ps (i + 1) (Fin (dR + rdist p p')) new"
        using resample_loop_skip [OF True, of "Fin I" "Fin dR" new] skip d
        by (simp add: p_def p'_def)
      have inv: "(dR + rdist p p') + rlen (drop (i + 1 - 1) ps) = real m * I"
        using Suc.prems(7) split by simp
      have k: "k = m + (length ps - (i + 1))" using Suc.prems(1) True by simp
      have nn: "0 \<le> dR + rdist p p'" using Suc.prems(5) rdist_nonneg [of p p'] by simp
      from Suc.IH [OF k Suc.prems(2) _ _ nn _ inv, of new] True skip
      obtain ps' new' where r: "resample_loop (Fin I) ps (i + 1) (Fin (dR + rdist p p')) new = Some (ps', new @ new')"
        "length new' = m" "length ps' = length ps + m"
        "\<forall>p \<in> set ps'. finite_point p \<and> Q p" "\<forall>p \<in> set new'. finite_point p \<and> Q p"
        by auto
      then show ?thesis using unf by auto
    qed
  qed
qed


lemma resample_positive:
  assumes fin: "\<forall>p \<in> set ps. finite_point p \<and> Q p" and pos: "0 < rlen ps"
    and Q: "\<And>p p' dR. finite_point p \<Longrightarrow> finite_point p' \<Longrightarrow> Q p \<Longrightarrow> Q p' \<Longrightarrow>
       0 \<le> dR \<Longrightarrow> dR < rlen ps / 63 \<Longrightarrow> rlen ps / 63 \<le> dR + rdist p p' \<Longrightarrow>
       Q (emitted (Fin (rlen ps / 63)) (Fin dR) p p')"
  shows "\<exists>ps' new. resample ps NUM_POINTS = Some (Inr (ps', new)) \<and> length new = 64 \<and>
     length ps' = length ps + 63 \<and> (\<forall>p \<in> set ps'. finite_point p \<and> Q p) \<and>
     (\<forall>p \<in> set new. finite_point p \<and> Q p)"
proof -
  from pos obtain p0 rest where ps: "ps = p0 # rest" by (cases ps) simp_all
  have I: "0 < rlen ps / 63" using pos by simp
  have pl: "pathLength ps / Fin (real NUM_POINTS - 1) = Fin (rlen ps / 63)"
    using fin by (simp add: pathLength_finite NUM_POINTS_def)
  have "\<exists>ps' new'. resample_loop (Fin (rlen ps / 63)) ps 1 (Fin 0) [p0] = Some (ps', [p0] @ new') \<and>
        length new' = 63 \<and> length ps' = length ps + 63 \<and>
        (\<forall>p \<in> set ps'. finite_point p \<and> Q p) \<and> (\<forall>p \<in> set new'. finite_point p \<and> Q p)"
    by (rule resample_loop_positive [OF I Q refl fin]) (use pos in \<open>simp_all add: ps\<close>)
  then obtain ps' new' where r: "resample_loop (Fin (rlen ps / 63)) ps 1 (Fin 0) [p0] = Some (ps', p0 # new')"
    "length new' = 63" "length ps' = length ps + 63"
    "\<forall>p \<in> set ps'. finite_point p \<and> Q p" "\<forall>p \<in> set new'. finite_point p \<and> Q p"
    by auto
  have "resample ps NUM_POINTS = Some (Inr (ps', p0 # new'))"
    using r(1,2) pl by (simp add: resample_def ps NUM_POINTS_def)
  moreover have "\<forall>p \<in> set (p0 # new'). finite_point p \<and> Q p" using r(5) fin ps by simp
  ultimately show ?thesis using r(2,3,4) by (intro exI [of _ ps'] exI [of _ "p0 # new'"]) simp
qed

section \<open>The golden-section search\<close>

lemma PHI_Fin: "PHI = Fin phi"
  by (simp add: PHI_def phi_def)

lemma phi_pos: "0 < phi"
proof -
  have "sqrt 1 < sqrt 5" by (rule real_sqrt_less_mono) simp
  then show ?thesis by (simp add: phi_def)
qed

lemma phi_less_one: "phi < 1"
proof -
  have "sqrt 5 < sqrt 9" by (rule real_sqrt_less_mono) simp
  moreover have "sqrt 9 = 3" using real_sqrt_abs [of 3] by simp
  ultimately show ?thesis by (simp add: phi_def)
qed

lemma phi_square: "phi * phi = 1 - phi"
proof -
  have "sqrt 5 * sqrt 5 = 5" by simp
  then show ?thesis unfolding phi_def by (simp add: field_simps)
qed

lemma bestAngle_loop_steps:
  assumes "0 < t"
  shows "a < b \<Longrightarrow> phi ^ k * (b - a) \<le> t \<Longrightarrow> golden f a b s \<Longrightarrow>
     (\<exists>e x. bestAngle_loop f (Fin t) s = Some (Inl e) \<and> f x = Inl e) \<or>
     (\<exists>s' a' b' j. bestAngle_loop f (Fin t) s = Some (Inr s') \<and> golden f a' b' s' \<and> a' < b' \<and>
        b' - a' = phi ^ j * (b - a) \<and> b' - a' \<le> t)"
proof (induction k arbitrary: a b s)
  case 0
  then have "\<not> Fin t < Math_abs (s_b s - s_a s)" by (simp add: golden_def)
  then have "bestAngle_loop f (Fin t) s = Some (Inr s)"
    by (subst bestAngle_loop.simps) simp
  moreover have "b - a = phi ^ 0 * (b - a)" by simp
  ultimately show ?case using 0 by (metis mult_1 power_0)
next
  case (Suc k)
  show ?case
  proof (cases "b - a \<le> t")
    case True
    with Suc.prems have "\<not> Fin t < Math_abs (s_b s - s_a s)" by (simp add: golden_def)
    then have "bestAngle_loop f (Fin t) s = Some (Inr s)"
      by (subst bestAngle_loop.simps) simp
    moreover have "b - a = phi ^ 0 * (b - a)" by simp
    ultimately show ?thesis using Suc.prems True by blast
  next
    case False
    with Suc.prems have cont: "Fin t < Math_abs (s_b s - s_a s)" by (simp add: golden_def)
    from False Suc.prems have shrink: "phi ^ k * (phi * (b - a)) \<le> t"
      by (simp add: mult.assoc mult.left_commute)
    from Suc.prems have g: "golden f a b s" by simp
    show ?thesis
    proof (cases "s_f1 s < s_f2 s")
      case True
      define b' where "b' = (1 - phi) * a + phi * b"
      define x1 where "x1 = Fin (phi * a + (1 - phi) * b')"
      have wid: "b' - a = phi * (b - a)" by (simp add: b'_def algebra_simps)
      show ?thesis
      proof (cases "f x1")
        case (Inl e)
        with cont True g have "bestAngle_loop f (Fin t) s = Some (Inl e)"
          by (subst bestAngle_loop.simps)
             (simp add: golden_def PHI_Fin x1_def b'_def Let_def)
        with Inl show ?thesis by blast
      next
        case (Inr v)
        define s1 where "s1 = \<lparr>s_a = Fin a, s_b = Fin b', s_x1 = x1, s_f1 = v,
          s_x2 = s_x1 s, s_f2 = s_f1 s\<rparr>"
        from cont True g Inr have unf: "bestAngle_loop f (Fin t) s = bestAngle_loop f (Fin t) s1"
          by (subst bestAngle_loop.simps)
             (simp add: golden_def PHI_Fin x1_def b'_def Let_def s1_def)
        have "(1 - phi) * a + phi * b' = (1 - phi * phi) * a + (phi * phi) * b"
          by (simp add: b'_def algebra_simps)
        then have "(1 - phi) * a + phi * b' = phi * a + (1 - phi) * b"
          by (simp add: phi_square)
        with g Inr have g1: "golden f a b' s1"
          by (auto simp: golden_def s1_def x1_def)
        have lt: "a < b'" using wid Suc.prems(1) phi_pos
          by (smt (verit) mult_pos_pos)
        from Suc.IH [OF lt _ g1] shrink wid
        have "(\<exists>e x. bestAngle_loop f (Fin t) s1 = Some (Inl e) \<and> f x = Inl e) \<or>
          (\<exists>s' a' b'' j. bestAngle_loop f (Fin t) s1 = Some (Inr s') \<and> golden f a' b'' s' \<and>
             a' < b'' \<and> b'' - a' = phi ^ j * (b' - a) \<and> b'' - a' \<le> t)"
          by simp
        then show ?thesis
        proof
          assume "\<exists>e x. bestAngle_loop f (Fin t) s1 = Some (Inl e) \<and> f x = Inl e"
          with unf show ?thesis by simp
        next
          assume "\<exists>s' a' b'' j. bestAngle_loop f (Fin t) s1 = Some (Inr s') \<and> golden f a' b'' s' \<and>
             a' < b'' \<and> b'' - a' = phi ^ j * (b' - a) \<and> b'' - a' \<le> t"
          then obtain s' a' b'' j where r: "bestAngle_loop f (Fin t) s1 = Some (Inr s')"
            "golden f a' b'' s'" "a' < b''" "b'' - a' = phi ^ j * (b' - a)" "b'' - a' \<le> t"
            by blast
          from r(4) wid have "b'' - a' = phi ^ Suc j * (b - a)" by (simp add: mult.assoc mult.left_commute)
          with r unf show ?thesis by metis
        qed
      qed
    next
      case False
      define a' where "a' = phi * a + (1 - phi) * b"
      define x2 where "x2 = Fin ((1 - phi) * a' + phi * b)"
      have wid: "b - a' = phi * (b - a)" by (simp add: a'_def algebra_simps)
      show ?thesis
      proof (cases "f x2")
        case (Inl e)
        with cont False g have "bestAngle_loop f (Fin t) s = Some (Inl e)"
          by (subst bestAngle_loop.simps)
             (simp add: golden_def PHI_Fin x2_def a'_def Let_def)
        with Inl show ?thesis by blast
      next
        case (Inr v)
        define s1 where "s1 = \<lparr>s_a = Fin a', s_b = Fin b, s_x1 = s_x2 s, s_f1 = s_f2 s,
          s_x2 = x2, s_f2 = v\<rparr>"
        from cont False g Inr have unf: "bestAngle_loop f (Fin t) s = bestAngle_loop f (Fin t) s1"
          by (subst bestAngle_loop.simps)
             (simp add: golden_def PHI_Fin x2_def a'_def Let_def s1_def)
        have "phi * a' + (1 - phi) * b = (phi * phi) * a + (1 - phi * phi) * b"
          by (simp add: a'_def algebra_simps)
        then have "phi * a' + (1 - phi) * b = (1 - phi) * a + phi * b"
          by (simp add: phi_square)
        with g Inr have g1: "golden f a' b s1"
          by (auto simp: golden_def s1_def x2_def)
        have lt: "a' < b" using wid Suc.prems(1) phi_pos
          by (smt (verit) mult_pos_pos)
        from Suc.IH [OF lt _ g1] shrink wid
        have "(\<exists>e x. bestAngle_loop f (Fin t) s1 = Some (Inl e) \<and> f x = Inl e) \<or>
          (\<exists>s' a'' b'' j. bestAngle_loop f (Fin t) s1 = Some (Inr s') \<and> golden f a'' b'' s' \<and>
             a'' < b'' \<and> b'' - a'' = phi ^ j * (b - a') \<and> b'' - a'' \<le> t)"
          by simp
        then show ?thesis
        proof
          assume "\<exists>e x. bestAngle_loop f (Fin t) s1 = Some (Inl e) \<and> f x = Inl e"
          with unf show ?thesis by simp
        next
          assume "\<exists>s' a'' b'' j. bestAngle_loop f (Fin t) s1 = Some (Inr s') \<and> golden f a'' b'' s' \<and>
             a'' < b'' \<and> b'' - a'' = phi ^ j * (b - a') \<and> b'' - a'' \<le> t"
          then obtain s' a'' b'' j where r: "bestAngle_loop f (Fin t) s1 = Some (Inr s')"
            "golden f a'' b'' s'" "a'' < b''" "b'' - a'' = phi ^ j * (b - a')" "b'' - a'' \<le> t"
            by blast
          from r(4) wid have "b'' - a'' = phi ^ Suc j * (b - a)" by (simp add: mult.assoc mult.left_commute)
          with r unf show ?thesis by metis
        qed
      qed
    qed
  qed
qed

lemma goldenD:
  assumes "golden f a b s"
  shows "s_a s = Fin a" "s_b s = Fin b"
    "s_x1 s = Fin (phi * a + (1 - phi) * b)" "s_x2 s = Fin ((1 - phi) * a + phi * b)"
    "f (s_x1 s) = Inr (s_f1 s)" "f (s_x2 s) = Inr (s_f2 s)"
  using assms unfolding golden_def by blast+

lemma phi_power_small:
  assumes "0 < t" "0 < w"
  shows "\<exists>k. phi ^ k * w \<le> t"
proof -
  have "0 < t / w" using assms by simp
  then obtain k where "phi ^ k < t / w"
    using real_arch_pow_inv [OF _ phi_less_one] by blast
  then have "phi ^ k * w < t" using assms(2) by (simp add: pos_less_divide_eq)
  then show ?thesis by (intro exI [of _ k]) simp
qed

lemma bestAngle_search_total:
  assumes "a < b" "0 < t"
  shows "(\<exists>e x. bestAngle_search f (Fin a) (Fin b) (Fin t) = Some (Inl e) \<and> f x = Inl e) \<or>
     (\<exists>s a' b' j. bestAngle_search f (Fin a) (Fin b) (Fin t) = Some (Inr s) \<and> golden f a' b' s \<and>
        a' < b' \<and> b' - a' = phi ^ j * (b - a) \<and> b' - a' \<le> t)"
proof -
  define x1 where "x1 = Fin (phi * a + (1 - phi) * b)"
  define x2 where "x2 = Fin ((1 - phi) * a + phi * b)"
  show ?thesis
  proof (cases "f x1")
    case (Inl e)
    then have "bestAngle_search f (Fin a) (Fin b) (Fin t) = Some (Inl e)"
      by (simp add: bestAngle_search_def PHI_Fin x1_def)
    with Inl show ?thesis by blast
  next
    case f1: (Inr v1)
    show ?thesis
    proof (cases "f x2")
      case (Inl e)
      with f1 have "bestAngle_search f (Fin a) (Fin b) (Fin t) = Some (Inl e)"
        by (simp add: bestAngle_search_def PHI_Fin x1_def x2_def)
      with Inl show ?thesis by blast
    next
      case f2: (Inr v2)
      define s where "s = \<lparr>s_a = Fin a, s_b = Fin b, s_x1 = x1, s_f1 = v1, s_x2 = x2, s_f2 = v2\<rparr>"
      have unf: "bestAngle_search f (Fin a) (Fin b) (Fin t) = bestAngle_loop f (Fin t) s"
        using f1 f2 by (simp add: bestAngle_search_def PHI_Fin x1_def x2_def s_def)
      have g: "golden f a b s" using f1 f2 by (simp add: golden_def s_def x1_def x2_def)
      from phi_power_small [OF assms(2), of "b - a"] assms(1)
      obtain k where "phi ^ k * (b - a) \<le> t" by auto
      from bestAngle_loop_steps [OF assms(2) assms(1) this g] unf show ?thesis by simp
    qed
  qed
qed

lemma distanceAtAngle_no_error:
  "length points \<le> length (h ! t_points template) \<Longrightarrow>
   \<exists>d. distanceAtAngle h points template radians = Inr d"
  by (simp add: distanceAtAngle_def pathDistance_def rotateBy_def Let_def)

section \<open>Templates of finite strokes\<close>

lemma length_normalized: "length (normalized ps) = length ps"
  by (cases ps) (simp_all add: normalized_def indicativeAngle_def translateTo_def scaleTo_def
      rotateBy_def Let_def)


lemma createTemplate_resampled:
  assumes "resample (h ! points) NUM_POINTS = Some (Inr (ps', new))" "new \<noteq> []"
  shows "createTemplate name points h =
     Some (Inr \<lparr>t_name = name, t_points = length h, t_vector = vectorize (normalized new)\<rparr>,
           h[points := ps'] @ [normalized new])"
proof -
  from assms(2) obtain p0 rest where new: "new = p0 # rest" by (cases new) simp_all
  show ?thesis
    using assms(1)
    by (simp add: createTemplate_def new indicativeAngle_def normalized_def alloc_def Let_def)
qed

lemma createTemplate_positive:
  assumes r: "points < length h"
    and fin: "\<forall>p \<in> set (h ! points). finite_point p \<and> Q p" and pos: "0 < rlen (h ! points)"
    and Q: "\<And>p p' dR. finite_point p \<Longrightarrow> finite_point p' \<Longrightarrow> Q p \<Longrightarrow> Q p' \<Longrightarrow>
       0 \<le> dR \<Longrightarrow> dR < rlen (h ! points) / 63 \<Longrightarrow> rlen (h ! points) / 63 \<le> dR + rdist p p' \<Longrightarrow>
       Q (emitted (Fin (rlen (h ! points) / 63)) (Fin dR) p p')"
  shows "\<exists>ps' new. resample (h ! points) NUM_POINTS = Some (Inr (ps', new)) \<and>
     createTemplate name points h =
       Some (Inr \<lparr>t_name = name, t_points = length h, t_vector = vectorize (normalized new)\<rparr>,
             h[points := ps'] @ [normalized new]) \<and>
     length new = 64 \<and> length ps' = length (h ! points) + 63 \<and>
     (\<forall>p \<in> set ps'. finite_point p \<and> Q p) \<and> (\<forall>p \<in> set new. finite_point p \<and> Q p)"
proof -
  from resample_positive [of "h ! points" Q, OF fin pos Q]
  obtain ps' new where rs: "resample (h ! points) NUM_POINTS = Some (Inr (ps', new))"
    "length new = 64" "length ps' = length (h ! points) + 63"
    "\<forall>p \<in> set ps'. finite_point p \<and> Q p" "\<forall>p \<in> set new. finite_point p \<and> Q p"
    by blast
  from rs(2) have "new \<noteq> []" by auto
  from createTemplate_resampled [OF rs(1) this] rs show ?thesis by blast
qed

section \<open>Straight horizontal strokes\<close>

lemma emitted_flat:
  assumes "finite_point p" "finite_point p'" "p_y p = Fin 0" "p_y p' = Fin 0"
    "dR < I" "I \<le> dR + rdist p p'"
  shows "p_y (emitted (Fin I) (Fin dR) p p') = Fin 0"
proof -
  have "rdist p p' \<noteq> 0" using assms(5,6) by auto
  then show ?thesis
    by (simp add: emitted_def distance_finite [OF assms(1,2)] assms(3,4) Let_def)
qed


lemma sum_list_zero: "\<forall>p \<in> set ps. f p = (0::real) \<Longrightarrow> sum_list (map f ps) = 0"
  by (induction ps) simp_all

lemma flat_rotated:
  assumes fin: "\<forall>p \<in> set ps. finite_point p \<and> p_y p = Fin 0" and ne: "ps \<noteq> []"
  shows "\<exists>r. indicativeAngle ps = Inr (Fin r) \<and>
     (\<forall>p \<in> set (rotateBy ps (- Fin r)). finite_point p \<and> p_y p = Fin 0)"
proof -
  from fin have f: "\<forall>p \<in> set ps. finite_point p" by simp
  define cx where "cx = sum_list (map (\<lambda>p. real_of (p_x p)) ps) / real (length ps)"
  have "sum_list (map (\<lambda>p. real_of (p_y p)) ps) = 0"
    using fin by (intro sum_list_zero) simp
  then have c: "centroid ps = \<lparr>p_x = Fin cx, p_y = Fin 0\<rparr>"
    by (simp add: centroid_finite [OF f ne] cx_def)
  from ne obtain p0 rest where ps: "ps = p0 # rest" by (cases ps) simp_all
  from f ps have "finite_point p0" by simp
  then obtain x0 y0 where p0: "p_x p0 = Fin x0" "p_y p0 = Fin y0" by (rule finite_point_cases)
  from fin ps p0 have y0: "y0 = 0" by simp
  define r where "r = (if 0 < cx - x0 then 0 else if cx - x0 < 0 then pi else 0)"
  have ang: "indicativeAngle ps = Inr (Fin r)"
    unfolding indicativeAngle_def ps [symmetric] c
    by (simp add: ps p0 y0 r_def Let_def)
  have s: "sin r = 0" by (simp add: r_def)
  have "\<forall>p \<in> set (rotateBy ps (Fin (- r))). finite_point p \<and> p_y p = Fin 0"
    unfolding rotateBy_finite [OF f ne c]
    using fin s by (auto simp: finite_point_def)
  with ang show ?thesis by auto
qed

lemma flat_height:
  assumes fin: "\<forall>p \<in> set ps. finite_point p \<and> p_y p = Fin 0" and ne: "ps \<noteq> []"
  shows "r_height (boundingBox ps) = Fin 0"
proof -
  from fin have f: "\<forall>p \<in> set ps. finite_point p" by simp
  from boundingBox_finite [OF f ne] obtain hh where
    hh: "r_height (boundingBox ps) = Fin hh"
       "\<exists>p \<in> set ps. \<exists>q \<in> set ps. hh = real_of (p_y p) - real_of (p_y q)" by blast
  from hh(2) fin have "hh = 0" by auto
  with hh(1) show ?thesis by simp
qed

lemma flat_normalized:
  assumes fin: "\<forall>p \<in> set ps. finite_point p \<and> p_y p = Fin 0" and ne: "ps \<noteq> []"
  shows "\<forall>p \<in> set (normalized ps). p_y p = NaN"
proof -
  from flat_rotated [OF fin ne] obtain r where r: "indicativeAngle ps = Inr (Fin r)"
    "\<forall>p \<in> set (rotateBy ps (Fin (- r))). finite_point p \<and> p_y p = Fin 0" by auto
  let ?rot = "rotateBy ps (Fin (- r))"
  have rne: "?rot \<noteq> []" using ne by (simp add: rotateBy_def Let_def)
  have h0: "r_height (boundingBox ?rot) = Fin 0" by (rule flat_height [OF r(2) rne])
  have "\<forall>p \<in> set (translateTo (scaleTo ?rot SQUARE_SIZE) ORIGIN). p_y p = NaN"
    using r(2) by (auto simp: translateTo_def scaleTo_def h0 SQUARE_SIZE_def Let_def minus_number_def)
  then show ?thesis using normalized_angle [OF r(1)] by simp
qed


lemma map_constant: "\<forall>x \<in> set xs. f x = c \<Longrightarrow> map f xs = replicate (length xs) c"
  by (induction xs) simp_all

lemma straight_stroke:
  "\<forall>p \<in> set [\<lparr>p_x = Fin 0, p_y = Fin 0\<rparr>, \<lparr>p_x = Fin 63, p_y = Fin 0\<rparr>].
     finite_point p \<and> p_y p = Fin 0"
  "0 < rlen [\<lparr>p_x = Fin 0, p_y = Fin 0\<rparr>, \<lparr>p_x = Fin 63, p_y = Fin 0\<rparr>]"
  by (simp_all add: finite_point_def rdist_def)

lemma createTemplate_flat:
  assumes r: "points < length h"
    and fin: "\<forall>p \<in> set (h ! points). finite_point p \<and> p_y p = Fin 0"
    and pos: "0 < rlen (h ! points)"
  shows "\<exists>ps' new. resample (h ! points) NUM_POINTS = Some (Inr (ps', new)) \<and>
     createTemplate name points h =
       Some (Inr \<lparr>t_name = name, t_points = length h, t_vector = vectorize (normalized new)\<rparr>,
             h[points := ps'] @ [normalized new]) \<and>
     length new = 64 \<and> length ps' = length (h ! points) + 63 \<and>
     (\<forall>p \<in> set new. finite_point p \<and> p_y p = Fin 0) \<and>
     map p_y (normalized new) = replicate 64 NaN"
proof -
  from createTemplate_positive [of points h "\<lambda>p. p_y p = Fin 0" name, OF r fin pos emitted_flat]
  obtain ps' new where c: "resample (h ! points) NUM_POINTS = Some (Inr (ps', new))"
    "createTemplate name points h =
       Some (Inr \<lparr>t_name = name, t_points = length h, t_vector = vectorize (normalized new)\<rparr>,
             h[points := ps'] @ [normalized new])"
    "length new = 64" "length ps' = length (h ! points) + 63"
    "\<forall>p \<in> set new. finite_point p \<and> p_y p = Fin 0"
    by blast
  from c(3) have "new \<noteq> []" by auto
  from map_constant [OF flat_normalized [OF c(5) this]] c(3)
  have "map p_y (normalized new) = replicate 64 NaN" by (simp add: length_normalized)
  with c show ?thesis by blast
qed

section \<open>A stroke with a corner\<close>

lemma sqrt_3844: "sqrt 3844 = 62"
  using real_sqrt_abs [of 62] by simp

lemma sqrt_3721: "sqrt 3721 = 61"
  using real_sqrt_abs [of 61] by simp

lemma corner_finite: "\<forall>p \<in> set corner_stroke. finite_point p"
  by (simp add: corner_stroke_def finite_point_def)

lemma corner_rlen: "rlen corner_stroke = 63"
  by (simp add: corner_stroke_def rdist_def sqrt_3844)

lemma resample_corner:
  "\<exists>ps' rest. resample corner_stroke NUM_POINTS =
       Some (Inr (ps', \<lparr>p_x = Fin 0, p_y = Fin 0\<rparr> # \<lparr>p_x = Fin 1, p_y = Fin 0\<rparr> #
                       \<lparr>p_x = Fin 1, p_y = Fin 1\<rparr> # rest)) \<and>
     length rest = 61 \<and> length ps' = 66 \<and> (\<forall>p \<in> set rest. finite_point p)"
proof -
  let ?a = "\<lparr>p_x = Fin 0, p_y = Fin 0\<rparr>" and ?b = "\<lparr>p_x = Fin 1, p_y = Fin 0\<rparr>"
  let ?c = "\<lparr>p_x = Fin 1, p_y = Fin 1\<rparr>" and ?e = "\<lparr>p_x = Fin 1, p_y = Fin 62\<rparr>"
  have iv: "pathLength corner_stroke / Fin (real NUM_POINTS - 1) = Fin 1"
    by (simp add: pathLength_finite [OF corner_finite] corner_rlen NUM_POINTS_def)
  have s1: "resample_loop (Fin 1) [?a, ?b, ?e] 1 (Fin 0) [?a]
      = resample_loop (Fin 1) [?a, ?b, ?b, ?e] 2 (Fin 0) [?a, ?b]"
    by (subst resample_loop.simps) (simp add: distance_def Let_def eval_nat_numeral)
  have s2: "resample_loop (Fin 1) [?a, ?b, ?b, ?e] 2 (Fin 0) [?a, ?b]
      = resample_loop (Fin 1) [?a, ?b, ?b, ?e] 3 (Fin 0) [?a, ?b]"
    by (subst resample_loop.simps) (simp add: distance_def Let_def eval_nat_numeral)
  have s3: "resample_loop (Fin 1) [?a, ?b, ?b, ?e] 3 (Fin 0) [?a, ?b]
      = resample_loop (Fin 1) [?a, ?b, ?b, ?c, ?e] 4 (Fin 0) [?a, ?b, ?c]"
    by (subst resample_loop.simps) (simp add: distance_def sqrt_3844 Let_def eval_nat_numeral)
  have "\<exists>ps' new'. resample_loop (Fin 1) [?a, ?b, ?b, ?c, ?e] 4 (Fin 0) [?a, ?b, ?c]
        = Some (ps', [?a, ?b, ?c] @ new') \<and>
        length new' = 61 \<and> length ps' = length [?a, ?b, ?b, ?c, ?e] + 61 \<and>
        (\<forall>p \<in> set ps'. finite_point p \<and> True) \<and> (\<forall>p \<in> set new'. finite_point p \<and> True)"
    by (rule resample_loop_positive [where Q = "\<lambda>_. True" and k = "61 + (5 - 4)"])
       (simp_all add: finite_point_def rdist_def sqrt_3721)
  then obtain ps' new' where r: "resample_loop (Fin 1) [?a, ?b, ?b, ?c, ?e] 4 (Fin 0) [?a, ?b, ?c]
        = Some (ps', ?a # ?b # ?c # new')" "length new' = 61" "length ps' = 66"
        "\<forall>p \<in> set new'. finite_point p"
    by auto
  have "resample corner_stroke NUM_POINTS = Some (Inr (ps', ?a # ?b # ?c # new'))"
    using iv r(1,2) s1 s2 s3 by (simp add: resample_def corner_stroke_def NUM_POINTS_def)
  with r show ?thesis by blast
qed

lemma atan2_finite: "\<exists>r. Math_atan2 (Fin y) (Fin x) = Fin r"
proof -
  have "Math_atan2 (Fin y) (Fin x) =
    Fin (if 0 < x then arctan (y / x)
         else if x < 0 then (if 0 \<le> y then arctan (y / x) + pi else arctan (y / x) - pi)
         else if 0 < y then pi / 2 else if y < 0 then - pi / 2 else 0)"
    by simp
  then show ?thesis ..
qed

lemma rdist_pos_x: "real_of (p_x p) \<noteq> real_of (p_x q) \<Longrightarrow> 0 < rdist p q"
  by (simp add: rdist_def sum_power2_gt_zero_iff)

lemma corner_normalized:
  assumes fin: "\<forall>p \<in> set rest. finite_point p"
    and ps: "ps = \<lparr>p_x = Fin 0, p_y = Fin 0\<rparr> # \<lparr>p_x = Fin 1, p_y = Fin 0\<rparr> #
                   \<lparr>p_x = Fin 1, p_y = Fin 1\<rparr> # rest"
  shows "\<exists>r. indicativeAngle ps = Inr (Fin r) \<and>
     (\<forall>p \<in> set (rotateBy ps (- Fin r)). finite_point p) \<and>
     r_width (boundingBox (rotateBy ps (- Fin r))) \<noteq> Fin 0 \<and>
     r_height (boundingBox (rotateBy ps (- Fin r))) \<noteq> Fin 0 \<and>
     (\<forall>p \<in> set (normalized ps). finite_point p) \<and> 0 < rlen (normalized ps)"
proof -
  let ?a = "\<lparr>p_x = Fin 0, p_y = Fin 0\<rparr>" and ?b = "\<lparr>p_x = Fin 1, p_y = Fin 0\<rparr>"
  let ?c = "\<lparr>p_x = Fin 1, p_y = Fin 1\<rparr>"
  have f: "\<forall>p \<in> set ps. finite_point p" using fin by (simp add: ps finite_point_def)
  have ne: "ps \<noteq> []" by (simp add: ps)
  define cx where "cx = sum_list (map (\<lambda>p. real_of (p_x p)) ps) / real (length ps)"
  define cy where "cy = sum_list (map (\<lambda>p. real_of (p_y p)) ps) / real (length ps)"
  have c: "centroid ps = \<lparr>p_x = Fin cx, p_y = Fin cy\<rparr>"
    by (simp add: centroid_finite [OF f ne] cx_def cy_def)
  obtain r where r: "Math_atan2 (Fin cy) (Fin cx) = Fin r" using atan2_finite by blast
  have ang: "indicativeAngle ps = Inr (Fin r)"
    unfolding indicativeAngle_def c using r by (simp add: ps)
  define C where "C = cos (- r)"
  define S where "S = sin (- r)"
  have unit: "C\<^sup>2 + S\<^sup>2 = 1" by (simp add: C_def S_def)
  define R :: "point \<Rightarrow> point" where "R = (\<lambda>p. \<lparr>p_x = Fin ((real_of (p_x p) - cx) * C - (real_of (p_y p) - cy) * S + cx),
               p_y = Fin ((real_of (p_x p) - cx) * S + (real_of (p_y p) - cy) * C + cy)\<rparr>)"
  have rot: "rotateBy ps (Fin (- r)) = map R ps"
    using rotateBy_finite [OF f ne c, of "- r"] by (simp add: R_def C_def S_def)
  let ?rot = "rotateBy ps (Fin (- r))"
  have frot: "\<forall>p \<in> set ?rot. finite_point p" by (simp add: rot R_def finite_point_def)
  have rne: "?rot \<noteq> []" by (simp add: rot ne)
  have mem: "R ?a \<in> set ?rot" "R ?b \<in> set ?rot" "R ?c \<in> set ?rot"
    unfolding rot by (simp_all add: ps)
  from boundingBox_finite [OF frot rne] obtain w hh where
    b: "r_width (boundingBox ?rot) = Fin w" "r_height (boundingBox ?rot) = Fin hh"
       "\<forall>p \<in> set ?rot. \<forall>q \<in> set ?rot. \<bar>real_of (p_x p) - real_of (p_x q)\<bar> \<le> w \<and>
         \<bar>real_of (p_y p) - real_of (p_y q)\<bar> \<le> hh"
    by blast
  have "\<bar>real_of (p_x (R ?b)) - real_of (p_x (R ?a))\<bar> \<le> w"
       "\<bar>real_of (p_x (R ?c)) - real_of (p_x (R ?b))\<bar> \<le> w"
       "\<bar>real_of (p_y (R ?b)) - real_of (p_y (R ?a))\<bar> \<le> hh"
       "\<bar>real_of (p_y (R ?c)) - real_of (p_y (R ?b))\<bar> \<le> hh"
    using b(3) mem by blast+
  then have bounds: "\<bar>C\<bar> \<le> w" "\<bar>S\<bar> \<le> w" "\<bar>S\<bar> \<le> hh" "\<bar>C\<bar> \<le> hh"
    by (simp_all add: R_def algebra_simps)
  have CS: "C \<noteq> 0 \<or> S \<noteq> 0" using unit by auto
  have w: "0 < w" and hh: "0 < hh" using bounds CS by auto
  have wne: "r_width (boundingBox ?rot) \<noteq> Fin 0" "r_height (boundingBox ?rot) \<noteq> Fin 0"
    using b(1,2) w hh by simp_all
  have fsc: "\<forall>p \<in> set (scaleTo ?rot (Fin 250)). finite_point p"
    using scaleTo_finite [OF frot b(1) _ b(2)] w hh by simp
  have n: "normalized ps = translateTo (scaleTo ?rot SQUARE_SIZE) ORIGIN"
    using normalized_angle [OF ang] by simp
  have fn: "\<forall>p \<in> set (normalized ps). finite_point p"
    unfolding n SQUARE_SIZE_def by (rule translateTo_finite [OF fsc])
  define sc where "sc = scaleTo ?rot (Fin 250)"
  have scne: "sc \<noteq> []" by (simp add: sc_def scaleTo_def rot ne Let_def)
  from centroid_finite [OF fsc [folded sc_def] scne] obtain mx my where
    m: "centroid sc = \<lparr>p_x = Fin mx, p_y = Fin my\<rparr>" by blast
  define N :: "point \<Rightarrow> point" where "N = (\<lambda>p. \<lparr>p_x = Fin (real_of (p_x (R p)) * (250 / w) - mx),
                          p_y = Fin (real_of (p_y (R p)) * (250 / hh) - my)\<rparr>)"
  have sc_eq: "sc = map (\<lambda>p. \<lparr>p_x = p_x p * Fin (250 / w), p_y = p_y p * Fin (250 / hh)\<rparr>) ?rot"
    unfolding sc_def scaleTo_def using b(1,2) w hh by (simp add: Let_def)
  have tr_eq: "normalized ps = map (\<lambda>p. \<lparr>p_x = p_x p + Fin 0 - Fin mx, p_y = p_y p + Fin 0 - Fin my\<rparr>) sc"
    unfolding n SQUARE_SIZE_def sc_def [symmetric]
    by (simp add: translateTo_def m Let_def ORIGIN_def)
  have nm: "normalized ps = map N ps"
    unfolding tr_eq sc_eq rot by (simp add: N_def R_def)
  have "real_of (p_x (N ?b)) - real_of (p_x (N ?a)) = C * (250 / w)"
       "real_of (p_x (N ?c)) - real_of (p_x (N ?b)) = - S * (250 / w)"
    by (simp_all add: N_def R_def algebra_simps add_divide_distrib diff_divide_distrib)
  then have "C \<noteq> 0 \<Longrightarrow> real_of (p_x (N ?a)) \<noteq> real_of (p_x (N ?b))"
    "S \<noteq> 0 \<Longrightarrow> real_of (p_x (N ?b)) \<noteq> real_of (p_x (N ?c))"
    using w by auto
  then have "0 < rdist (N ?a) (N ?b) \<or> 0 < rdist (N ?b) (N ?c)"
    using CS rdist_pos_x by blast
  moreover have "rlen (normalized ps) = rdist (N ?a) (N ?b) + (rdist (N ?b) (N ?c) + rlen (N ?c # map N rest))"
    unfolding nm by (simp add: ps)
  ultimately have "0 < rlen (normalized ps)"
    using rdist_nonneg [of "N ?a" "N ?b"] rdist_nonneg [of "N ?b" "N ?c"]
      rlen_nonneg [of "N ?c # map N rest"] by linarith
  moreover have "- Fin r = Fin (- r)" by simp
  ultimately show ?thesis using ang frot wne fn by auto
qed

lemma createTemplate_corner:
  assumes "points < length h" "h ! points = corner_stroke"
  shows "\<exists>ps' new r. resample (h ! points) NUM_POINTS = Some (Inr (ps', new)) \<and>
     createTemplate name points h =
       Some (Inr \<lparr>t_name = name, t_points = length h, t_vector = vectorize (normalized new)\<rparr>,
             h[points := ps'] @ [normalized new]) \<and>
     length ps' = 66 \<and> length (normalized new) = 64 \<and>
     (\<forall>p \<in> set (normalized new). finite_point p) \<and> 0 < rlen (normalized new) \<and>
     indicativeAngle new = Inr (Fin r) \<and>
     (\<forall>p \<in> set (rotateBy new (- Fin r)). finite_point p) \<and>
     r_width (boundingBox (rotateBy new (- Fin r))) \<noteq> Fin 0 \<and>
     r_height (boundingBox (rotateBy new (- Fin r))) \<noteq> Fin 0"
proof -
  from resample_corner obtain ps' rest where
    rs: "resample corner_stroke NUM_POINTS =
       Some (Inr (ps', \<lparr>p_x = Fin 0, p_y = Fin 0\<rparr> # \<lparr>p_x = Fin 1, p_y = Fin 0\<rparr> #
                       \<lparr>p_x = Fin 1, p_y = Fin 1\<rparr> # rest))"
      "length rest = 61" "length ps' = 66" "\<forall>p \<in> set rest. finite_point p"
    by blast
  define new where "new = \<lparr>p_x = Fin 0, p_y = Fin 0\<rparr> # \<lparr>p_x = Fin 1, p_y = Fin 0\<rparr> #
                       \<lparr>p_x = Fin 1, p_y = Fin 1\<rparr> # rest"
  from corner_normalized [OF rs(4) new_def] obtain r where
    n: "indicativeAngle new = Inr (Fin r)"
     "\<forall>p \<in> set (rotateBy new (- Fin r)). finite_point p"
     "r_width (boundingBox (rotateBy new (- Fin r))) \<noteq> Fin 0"
     "r_height (boundingBox (rotateBy new (- Fin r))) \<noteq> Fin 0"
     "\<forall>p \<in> set (normalized new). finite_point p" "0 < rlen (normalized new)"
    by blast
  have r1: "resample (h ! points) NUM_POINTS = Some (Inr (ps', new))"
    using rs(1) by (simp add: assms(2) new_def)
  have "new \<noteq> []" by (simp add: new_def)
  from createTemplate_resampled [OF r1 this, of name]
  have c: "createTemplate name points h =
       Some (Inr \<lparr>t_name = name, t_points = length h, t_vector = vectorize (normalized new)\<rparr>,
             h[points := ps'] @ [normalized new])" .
  have "length (normalized new) = 64" using rs(2) by (simp add: length_normalized new_def)
  with r1 c rs(3) n show ?thesis by blast
qed

section \<open>Distances returned by the matchers\<close>

lemma less_number_trans: "a < b \<Longrightarrow> b < c \<Longrightarrow> a < (c::number)"
  by (cases a; cases b; cases c) simp_all

lemma less_number_irrefl: "\<not> a < (a::number)"
  by (cases a) simp_all

lemma less_number_asym: "a < b \<Longrightarrow> \<not> b < (a::number)"
  by (cases a; cases b) simp_all

lemma distance_like_sqrt: "distance_like (Math_sqrt a)"
  by (cases a) (simp_all add: distance_like_def)

lemma distance_like_distance: "distance_like (distance p q)"
  by (simp add: distance_def Let_def distance_like_sqrt)

lemma distance_like_plus: "distance_like a \<Longrightarrow> distance_like b \<Longrightarrow> distance_like (a + b)"
  by (cases a; cases b) (simp_all add: distance_like_def)

lemma distance_like_foldl:
  "distance_like a \<Longrightarrow> (\<And>i. distance_like (g i)) \<Longrightarrow> distance_like (foldl (\<lambda>d i. d + g i) a xs)"
  by (induction xs arbitrary: a) (simp_all add: distance_like_plus)

lemma distance_like_divide: "distance_like a \<Longrightarrow> distance_like (a / Fin (real n))"
  by (cases a) (auto simp: distance_like_def)

lemma distance_like_min: "distance_like a \<Longrightarrow> distance_like b \<Longrightarrow> distance_like (Math_min a b)"
  by (cases a; cases b) (simp_all add: distance_like_def)

lemma distance_like_acos: "distance_like (Math_acos a)"
  by (cases a) (simp_all add: distance_like_def arccos_lbound)

lemma distance_like_less: "distance_like d \<Longrightarrow> d < b \<Longrightarrow> \<exists>r. d = Fin r \<and> 0 \<le> r"
  by (cases d; cases b) (simp_all add: distance_like_def)

lemma distance_like_pathDistance: "pathDistance ps qs = Inr d \<Longrightarrow> distance_like d"
  by (auto simp: pathDistance_def distance_like_def [of "Fin 0"] split: if_splits
      intro!: distance_like_divide distance_like_foldl distance_like_distance)

lemma distance_like_distanceAtAngle: "distanceAtAngle h ps t x = Inr d \<Longrightarrow> distance_like d"
  by (simp add: distanceAtAngle_def Let_def distance_like_pathDistance)

lemma angle_constants:
  "- ANGLE_RANGE = Fin (- (pi / 4))" "ANGLE_RANGE = Fin (pi / 4)" "ANGLE_PRECISION = Fin (pi / 90)"
  by (simp_all add: ANGLE_RANGE_def ANGLE_PRECISION_def deg2Rad_def)

lemma distanceAtBestAngle_total:
  "\<exists>out. distanceAtBestAngle h ps t (- ANGLE_RANGE) ANGLE_RANGE ANGLE_PRECISION = Some out \<and>
     (case out of Inl e \<Rightarrow> length (h ! t_points t) < length ps | Inr d \<Rightarrow> distance_like d)"
proof -
  let ?f = "distanceAtAngle h ps t"
  have ab: "- (pi / 4) < pi / 4" "0 < pi / 90" by simp_all
  from bestAngle_search_total [OF ab, of ?f]
  show ?thesis
  proof
    assume "\<exists>e x. bestAngle_search ?f (Fin (- (pi / 4))) (Fin (pi / 4)) (Fin (pi / 90)) = Some (Inl e)
      \<and> ?f x = Inl e"
    then obtain e x where e: "bestAngle_search ?f (Fin (- (pi / 4))) (Fin (pi / 4)) (Fin (pi / 90)) = Some (Inl e)"
      "?f x = Inl e" by blast
    from e(2) have "length (h ! t_points t) < length ps"
      by (simp add: distanceAtAngle_def pathDistance_def rotateBy_def Let_def split: if_splits)
    with e(1) show ?thesis by (simp add: distanceAtBestAngle_def angle_constants)
  next
    assume "\<exists>s a' b' j. bestAngle_search ?f (Fin (- (pi / 4))) (Fin (pi / 4)) (Fin (pi / 90)) = Some (Inr s)
      \<and> golden ?f a' b' s \<and> a' < b' \<and> b' - a' = phi ^ j * (pi / 4 - - (pi / 4)) \<and> b' - a' \<le> pi / 90"
    then obtain s a' b' where s: "bestAngle_search ?f (Fin (- (pi / 4))) (Fin (pi / 4)) (Fin (pi / 90)) = Some (Inr s)"
      "golden ?f a' b' s" by blast
    have "distance_like (s_f1 s)" "distance_like (s_f2 s)"
      using goldenD(5,6) [OF s(2)] by (auto dest: distance_like_distanceAtAngle)
    then have "distance_like (Math_min (s_f1 s) (s_f2 s))" by (rule distance_like_min)
    with s(1) show ?thesis by (simp add: distanceAtBestAngle_def angle_constants)
  qed
qed

lemma matchDistance_total:
  "\<exists>out. matchDistance useP h c t = Some out \<and>
     (case out of Inl e \<Rightarrow> \<not> useP \<and> length (h ! t_points t) < length (h ! t_points c)
      | Inr d \<Rightarrow> distance_like d)"
proof (cases useP)
  case True
  then show ?thesis
    by (simp add: matchDistance_def optimalCosineDistance_def Let_def distance_like_acos)
next
  case False
  with distanceAtBestAngle_total [of h "h ! t_points c" t] show ?thesis
    by (auto simp: matchDistance_def split: sum.splits)
qed

section \<open>The loop over the stored templates\<close>


lemma recognize_loop_result:
  assumes "recognize_loop useP h c ts i bm bd = Some (Inr (bm', bd'))"
  shows "((bm' = bm \<and> bd' = bd) \<or>
      (i \<le> bm' \<and> bm' < i + int (length ts) \<and> bd' < bd \<and>
       matchDistance useP h c (ts ! nat (bm' - i)) = Some (Inr bd') \<and>
       (\<forall>j < nat (bm' - i). matchDistance useP h c (ts ! j) \<noteq> Some (Inr bd')))) \<and>
     (\<forall>j < length ts. \<exists>d. matchDistance useP h c (ts ! j) = Some (Inr d) \<and> \<not> d < bd')"
  using assms
proof (induction ts arbitrary: i bm bd)
  case Nil
  then show ?case by simp
next
  case (Cons t ts)
  from Cons.prems obtain d where d: "matchDistance useP h c t = Some (Inr d)"
    by (auto split: option.splits sum.splits)
  show ?case
  proof (cases "d < bd")
    case True
    with Cons.prems d have run: "recognize_loop useP h c ts (i + 1) i d = Some (Inr (bm', bd'))"
      by simp
    note ih = Cons.IH [OF run]
    from ih have rest: "\<forall>j < length ts. \<exists>e. matchDistance useP h c (ts ! j) = Some (Inr e) \<and> \<not> e < bd'"
      by blast
    from ih have "(bm' = i \<and> bd' = d) \<or>
      (i + 1 \<le> bm' \<and> bm' < i + 1 + int (length ts) \<and> bd' < d \<and>
       matchDistance useP h c (ts ! nat (bm' - (i + 1))) = Some (Inr bd') \<and>
       (\<forall>j < nat (bm' - (i + 1)). matchDistance useP h c (ts ! j) \<noteq> Some (Inr bd')))"
      by blast
    then show ?thesis
    proof
      assume eq: "bm' = i \<and> bd' = d"
      have "\<forall>j < length (t # ts). \<exists>e. matchDistance useP h c ((t # ts) ! j) = Some (Inr e) \<and> \<not> e < bd'"
      proof (intro allI impI)
        fix j assume "j < length (t # ts)"
        then show "\<exists>e. matchDistance useP h c ((t # ts) ! j) = Some (Inr e) \<and> \<not> e < bd'"
          using rest d eq less_number_irrefl [of d] by (cases j) auto
      qed
      moreover have "i \<le> bm' \<and> bm' < i + int (length (t # ts)) \<and> bd' < bd \<and>
       matchDistance useP h c ((t # ts) ! nat (bm' - i)) = Some (Inr bd') \<and>
       (\<forall>j < nat (bm' - i). matchDistance useP h c ((t # ts) ! j) \<noteq> Some (Inr bd'))"
        using eq True d by simp
      ultimately show ?thesis by blast
    next
      assume later: "i + 1 \<le> bm' \<and> bm' < i + 1 + int (length ts) \<and> bd' < d \<and>
       matchDistance useP h c (ts ! nat (bm' - (i + 1))) = Some (Inr bd') \<and>
       (\<forall>j < nat (bm' - (i + 1)). matchDistance useP h c (ts ! j) \<noteq> Some (Inr bd'))"
      then have "i + 1 \<le> bm'" by blast
      then have pos: "nat (bm' - i) = Suc (nat (bm' - (i + 1)))" by linarith
      from later have b1: "bd' < d" by blast
      have lt: "bd' < bd" using b1 True by (rule less_number_trans)
      have nd: "\<not> d < bd'" using b1 by (rule less_number_asym)
      have ne: "d \<noteq> bd'" using b1 less_number_irrefl [of d] by auto
      have "\<forall>j < length (t # ts). \<exists>e. matchDistance useP h c ((t # ts) ! j) = Some (Inr e) \<and> \<not> e < bd'"
      proof (intro allI impI)
        fix j assume "j < length (t # ts)"
        then show "\<exists>e. matchDistance useP h c ((t # ts) ! j) = Some (Inr e) \<and> \<not> e < bd'"
          using rest d nd by (cases j) auto
      qed
      moreover have "\<forall>j < nat (bm' - i). matchDistance useP h c ((t # ts) ! j) \<noteq> Some (Inr bd')"
      proof (intro allI impI)
        fix j assume "j < nat (bm' - i)"
        then show "matchDistance useP h c ((t # ts) ! j) \<noteq> Some (Inr bd')"
          using later d ne pos by (cases j) auto
      qed
      moreover have "i \<le> bm' \<and> bm' < i + int (length (t # ts)) \<and>
       matchDistance useP h c ((t # ts) ! nat (bm' - i)) = Some (Inr bd')"
        using later pos by simp
      ultimately show ?thesis using lt by blast
    qed
  next
    case False
    with Cons.prems d have run: "recognize_loop useP h c ts (i + 1) bm bd = Some (Inr (bm', bd'))"
      by simp
    note ih = Cons.IH [OF run]
    from ih have rest: "\<forall>j < length ts. \<exists>e. matchDistance useP h c (ts ! j) = Some (Inr e) \<and> \<not> e < bd'"
      by blast
    from ih have "(bm' = bm \<and> bd' = bd) \<or>
      (i + 1 \<le> bm' \<and> bm' < i + 1 + int (length ts) \<and> bd' < bd \<and>
       matchDistance useP h c (ts ! nat (bm' - (i + 1))) = Some (Inr bd') \<and>
       (\<forall>j < nat (bm' - (i + 1)). matchDistance useP h c (ts ! j) \<noteq> Some (Inr bd')))"
      by blast
    then show ?thesis
    proof
      assume eq: "bm' = bm \<and> bd' = bd"
      have "\<forall>j < length (t # ts). \<exists>e. matchDistance useP h c ((t # ts) ! j) = Some (Inr e) \<and> \<not> e < bd'"
      proof (intro allI impI)
        fix j assume "j < length (t # ts)"
        then show "\<exists>e. matchDistance useP h c ((t # ts) ! j) = Some (Inr e) \<and> \<not> e < bd'"
          using rest d eq False by (cases j) auto
      qed
      with eq show ?thesis by blast
    next
      assume later: "i + 1 \<le> bm' \<and> bm' < i + 1 + int (length ts) \<and> bd' < bd \<and>
       matchDistance useP h c (ts ! nat (bm' - (i + 1))) = Some (Inr bd') \<and>
       (\<forall>j < nat (bm' - (i + 1)). matchDistance useP h c (ts ! j) \<noteq> Some (Inr bd'))"
      then have "i + 1 \<le> bm'" by blast
      then have pos: "nat (bm' - i) = Suc (nat (bm' - (i + 1)))" by linarith
      from later have b1: "bd' < bd" by blast
      have nd: "\<not> d < bd'" using b1 False less_number_trans [of d bd' bd] by auto
      have ne: "d \<noteq> bd'" using b1 False by auto
      have "\<forall>j < length (t # ts). \<exists>e. matchDistance useP h c ((t # ts) ! j) = Some (Inr e) \<and> \<not> e < bd'"
      proof (intro allI impI)
        fix j assume "j < length (t # ts)"
        then show "\<exists>e. matchDistance useP h c ((t # ts) ! j) = Some (Inr e) \<and> \<not> e < bd'"
          using rest d nd by (cases j) auto
      qed
      moreover have "\<forall>j < nat (bm' - i). matchDistance useP h c ((t # ts) ! j) \<noteq> Some (Inr bd')"
      proof (intro allI impI)
        fix j assume "j < nat (bm' - i)"
        then show "matchDistance useP h c ((t # ts) ! j) \<noteq> Some (Inr bd')"
          using later d ne pos by (cases j) auto
      qed
      moreover have "i \<le> bm' \<and> bm' < i + int (length (t # ts)) \<and> bd' < bd \<and>
       matchDistance useP h c ((t # ts) ! nat (bm' - i)) = Some (Inr bd')"
        using later pos by simp
      ultimately show ?thesis by blast
    qed
  qed
qed

section \<open>The result of recognize\<close>

lemma HALF_DIAGONAL_Fin: "HALF_DIAGONAL = Fin (sqrt 125000 / 2)"
  by (simp add: HALF_DIAGONAL_def DIAGONAL_def SQUARE_SIZE_def)

lemma score_range:
  assumes "0 \<le> x"
  shows "\<exists>s. Math_max (Fin 0) (if useP then Fin 1 - Fin x else Fin 1 - Fin x / HALF_DIAGONAL) = Fin s
     \<and> 0 \<le> s \<and> s \<le> 1"
proof -
  have "0 < sqrt 125000 / 2" by simp
  then have "0 \<le> x / (sqrt 125000 / 2)" using assms by (intro divide_nonneg_pos)
  then show ?thesis using assms
    by (cases useP) (auto simp: HALF_DIAGONAL_Fin)
qed

lemma recognize_long:
  assumes "recognize points useP (this, h) = Some (Inr r, w')" "\<not> length (h ! points) < 2"
  shows "\<exists>c h' bm bd. createTemplate [] points h = Some (Inr c, h') \<and> w' = (this, h') \<and>
     recognize_loop useP h' c (templates this) 0 (- 1) PInf = Some (Inr (bm, bd)) \<and>
     (if bm = - 1 then r = noMatch
      else r = \<lparr>res_name = t_name (templates this ! nat bm),
                res_score = Math_max (Fin 0)
                  (if useP then Fin 1 - bd else Fin 1 - bd / HALF_DIAGONAL)\<rparr>)"
proof -
  from assms obtain c h' where c: "createTemplate [] points h = Some (Inr c, h')"
    by (auto simp: recognize_def split: option.splits sum.splits prod.splits)
  with assms obtain bm bd where
    l: "recognize_loop useP h' c (templates this) 0 (- 1) PInf = Some (Inr (bm, bd))"
    by (auto simp: recognize_def split: option.splits sum.splits prod.splits)
  from assms c l have "w' = (this, h')"
    and "if bm = - 1 then r = noMatch
      else r = \<lparr>res_name = t_name (templates this ! nat bm),
                res_score = Math_max (Fin 0)
                  (if useP then Fin 1 - bd else Fin 1 - bd / HALF_DIAGONAL)\<rparr>"
    by (auto simp: recognize_def Let_def split: if_splits)
  with c l show ?thesis by blast
qed

lemma recognize_loop_no_error:
  "\<forall>t \<in> set ts. useP \<or> length (h ! t_points c) \<le> length (h ! t_points t) \<Longrightarrow>
   \<exists>bm' bd'. recognize_loop useP h c ts i bm bd = Some (Inr (bm', bd'))"
proof (induction ts arbitrary: i bm bd)
  case Nil
  then show ?case by simp
next
  case (Cons t ts)
  from matchDistance_total [of useP h c t] obtain out where
    out: "matchDistance useP h c t = Some out"
    "case out of Inl e \<Rightarrow> \<not> useP \<and> length (h ! t_points t) < length (h ! t_points c)
      | Inr d \<Rightarrow> distance_like d" by blast
  from out(2) Cons.prems obtain d where "out = Inr d" by (cases out) auto
  with out(1) show ?case using Cons by auto
qed


lemma recognize_returns:
  assumes "createTemplate [] points h = Some (Inr c, h')" "\<not> length (h ! points) < 2"
    and "\<forall>t \<in> set (templates this). useP \<or> length (h' ! t_points c) \<le> length (h' ! t_points t)"
  shows "\<exists>r. recognize points useP (this, h) = Some (Inr r, this, h')"
proof -
  from recognize_loop_no_error [OF assms(3), of 0 "- 1" PInf]
  obtain bm bd where "recognize_loop useP h' c (templates this) 0 (- 1) PInf = Some (Inr (bm, bd))"
    by blast
  then show ?thesis using assms(1,2) by (simp add: recognize_def Let_def)
qed

section \<open>Distances of degenerate and of finite templates\<close>





lemma pathDistance_finite:
  assumes "\<forall>p \<in> set ps. finite_point p" "\<forall>p \<in> set qs. finite_point p" "length ps \<le> length qs"
    "ps \<noteq> []"
  shows "\<exists>d. pathDistance ps qs = Inr (Fin d)"
proof -
  have "\<forall>i \<in> set [0..<length ps]. finite_number (distance (ps ! i) (qs ! i))"
  proof
    fix i assume "i \<in> set [0..<length ps]"
    then have "finite_point (ps ! i)" "finite_point (qs ! i)" using assms(1,2,3) by simp_all
    then show "finite_number (distance (ps ! i) (qs ! i))" by (simp add: distance_finite)
  qed
  from foldl_plus_finite [OF this, of 0] assms(3,4) show ?thesis
    by (simp add: pathDistance_def)
qed

lemma matchDistance_finite:
  assumes "\<forall>p \<in> set (h ! t_points c). finite_point p" "\<forall>p \<in> set (h ! t_points t). finite_point p"
    and "length (h ! t_points c) \<le> length (h ! t_points t)" "h ! t_points c \<noteq> []"
  shows "\<exists>d. matchDistance False h c t = Some (Inr (Fin d))"
proof -
  let ?f = "distanceAtAngle h (h ! t_points c) t"
  have f: "\<exists>d. ?f (Fin x) = Inr (Fin d)" for x
  proof -
    obtain cx cy where c: "centroid (h ! t_points c) = \<lparr>p_x = Fin cx, p_y = Fin cy\<rparr>"
      using centroid_finite [OF assms(1,4)] by blast
    have "\<forall>p \<in> set (rotateBy (h ! t_points c) (Fin x)). finite_point p"
      unfolding rotateBy_finite [OF assms(1,4) c] by (simp add: finite_point_def)
    moreover have "length (rotateBy (h ! t_points c) (Fin x)) = length (h ! t_points c)"
      by (simp add: rotateBy_def Let_def)
    moreover have "rotateBy (h ! t_points c) (Fin x) \<noteq> []"
      using assms(4) by (simp add: rotateBy_def Let_def)
    ultimately show ?thesis
      using pathDistance_finite [of "rotateBy (h ! t_points c) (Fin x)" "h ! t_points t"] assms(2,3)
      by (simp add: distanceAtAngle_def Let_def)
  qed
  have ab: "- (pi / 4) < pi / 4" "0 < pi / 90" by simp_all
  have "\<not> (\<exists>e x. ?f x = Inl e)"
    using distanceAtAngle_no_error [OF assms(3)] by (metis Inl_Inr_False)
  with bestAngle_search_total [OF ab, of ?f]
  obtain s a' b' where s: "bestAngle_search ?f (Fin (- (pi / 4))) (Fin (pi / 4)) (Fin (pi / 90)) = Some (Inr s)"
    "golden ?f a' b' s" by blast
  from goldenD(3,5) [OF s(2)] f obtain d1 where "s_f1 s = Fin d1" by (metis sum.inject(2))
  moreover from goldenD(4,6) [OF s(2)] f obtain d2 where "s_f2 s = Fin d2" by (metis sum.inject(2))
  ultimately have "Math_min (s_f1 s) (s_f2 s) = Fin (min d1 d2)" by (simp add: Math_min_Fin del: Math_min.simps)
  with s(1) show ?thesis
    by (simp add: matchDistance_def distanceAtBestAngle_def angle_constants)
qed

section \<open>A recognizer that holds the corner stroke\<close>

lemma corner_world:
  assumes "0 < length h" "h ! 0 = corner_stroke"
  shows "\<exists>t ps' T. addGesture ''corner'' 0 (\<lparr>templates = []\<rparr>, h) =
       Some (Inr 1, \<lparr>templates = [t]\<rparr>, h[0 := ps'] @ [T]) \<and>
     t_name t = ''corner'' \<and> t_points t = length h \<and> length T = 64 \<and>
     (\<forall>p \<in> set T. finite_point p) \<and> 0 < rlen T"
proof -
  from createTemplate_corner [OF assms, of "''corner''"]
  obtain ps' new where c: "createTemplate ''corner'' 0 h =
       Some (Inr \<lparr>t_name = ''corner'', t_points = length h, t_vector = vectorize (normalized new)\<rparr>,
             h[0 := ps'] @ [normalized new])"
     "length (normalized new) = 64" "\<forall>p \<in> set (normalized new). finite_point p"
     "0 < rlen (normalized new)"
    by auto
  then show ?thesis by (auto simp: addGesture_def)
qed

lemma recognize_corner:
  assumes "t_name t = ''corner''" "t_points t = 2" "length T = 64" "\<forall>p \<in> set T. finite_point p"
  shows "\<exists>r w'. recognize 1 False (\<lparr>templates = [t]\<rparr>, [ps', corner_stroke, T]) = Some (Inr r, w') \<and>
     res_name r = ''corner''"
proof -
  let ?h = "[ps', corner_stroke, T]"
  from createTemplate_corner [of 1 ?h "[]"]
  obtain ps'' new where c: "createTemplate [] 1 ?h =
       Some (Inr \<lparr>t_name = [], t_points = 3, t_vector = vectorize (normalized new)\<rparr>,
             [ps', ps'', T, normalized new])"
     "length (normalized new) = 64" "\<forall>p \<in> set (normalized new). finite_point p"
    by auto
  let ?c = "\<lparr>t_name = [], t_points = 3, t_vector = vectorize (normalized new)\<rparr>"
  let ?h' = "[ps', ps'', T, normalized new]"
  have ne: "normalized new \<noteq> []" using c(2) by auto
  from matchDistance_finite [of ?h' ?c t] c(2,3) assms ne
  obtain d where d: "matchDistance False ?h' ?c t = Some (Inr (Fin d))" by auto
  have "recognize 1 False (\<lparr>templates = [t]\<rparr>, ?h) =
     Some (Inr \<lparr>res_name = t_name t, res_score = Math_max (Fin 0) (Fin 1 - Fin d / HALF_DIAGONAL)\<rparr>,
           \<lparr>templates = [t]\<rparr>, ?h')"
    using c(1) d by (simp add: recognize_def corner_stroke_def Let_def)
  with assms(1) show ?thesis by auto
qed

lemma corner_recognized:
  "\<exists>t ps' T r w'. addGesture ''corner'' 0 (\<lparr>templates = []\<rparr>, [corner_stroke, corner_stroke]) =
       Some (Inr 1, \<lparr>templates = [t]\<rparr>, [ps', corner_stroke, T]) \<and> t_name t = ''corner'' \<and>
     recognize 1 False (\<lparr>templates = [t]\<rparr>, [ps', corner_stroke, T]) = Some (Inr r, w') \<and>
     res_name r = ''corner''"
proof -
  from corner_world [of "[corner_stroke, corner_stroke]"] obtain t ps' T where
    w: "addGesture ''corner'' 0 (\<lparr>templates = []\<rparr>, [corner_stroke, corner_stroke]) =
       Some (Inr 1, \<lparr>templates = [t]\<rparr>, [ps', corner_stroke, T])"
     "t_name t = ''corner''" "t_points t = 2" "length T = 64" "\<forall>p \<in> set T. finite_point p"
    by auto
  from recognize_corner [OF w(2-5), of ps'] w(1,2) show ?thesis by blast
qed



section \<open>What a call leaves unchanged\<close>

lemma createTemplate_frame:
  assumes "createTemplate name points h = Some (res, h')"
  shows "length h \<le> length h' \<and> (\<forall>r < length h. r \<noteq> points \<longrightarrow> h' ! r = h ! r)"
  using assms
  by (auto simp: createTemplate_def alloc_def Let_def nth_append
      split: option.splits sum.splits prod.splits)

lemma recognize_frame:
  assumes "recognize points useP (this, h) = Some (res, this', h')"
  shows "this' = this \<and> length h \<le> length h' \<and>
     (\<forall>r < length h. r \<noteq> points \<longrightarrow> h' ! r = h ! r)"
proof (cases "length (h ! points) < 2")
  case True
  with assms show ?thesis by (simp add: recognize_def)
next
  case False
  with assms obtain x h1 where c: "createTemplate [] points h = Some (x, h1)"
    by (auto simp: recognize_def split: option.splits)
  with assms False have "this' = this \<and> h' = h1"
    by (auto simp: recognize_def Let_def split: option.splits sum.splits prod.splits if_splits)
  with createTemplate_frame [OF c] show ?thesis by simp
qed

section \<open>Strokes of path length zero\<close>




section \<open>Export and import\<close>







section \<open>Strokes that are too short\<close>

text \<open>
  C6.  For a stroke of fewer than two points, \<open>recognize\<close> returns the result
  \<open>{name: "No match", score: 0}\<close> at once, whichever matcher is chosen and whatever
  the store holds: the stroke's array, every other array and the recognizer are as they
  were, so neither the pipeline nor the store has been touched.
\<close>

theorem recognize_short_stroke:
  "length (h ! points) < 2 \<Longrightarrow>
   recognize points useProtractor (this, h) =
     Some (Inr \<lparr>res_name = ''No match'', res_score = Fin 0\<rparr>, this, h)"
  by (simp add: recognize_def noMatch_def)

theorem recognize_short_stroke_witness:
  "length ([[\<lparr>p_x = Fin 3, p_y = Fin 4\<rparr>], [\<lparr>p_x = Fin 1, p_y = Fin 1\<rparr>]] ! 0) < 2 \<and>
   recognize 0 False
     (\<lparr>templates = [\<lparr>t_name = ''line'', t_points = 1, t_vector = [Fin 1, Fin 0]\<rparr>]\<rparr>,
      [[\<lparr>p_x = Fin 3, p_y = Fin 4\<rparr>], [\<lparr>p_x = Fin 1, p_y = Fin 1\<rparr>]]) =
     Some (Inr \<lparr>res_name = ''No match'', res_score = Fin 0\<rparr>,
       \<lparr>templates = [\<lparr>t_name = ''line'', t_points = 1, t_vector = [Fin 1, Fin 0]\<rparr>]\<rparr>,
       [[\<lparr>p_x = Fin 3, p_y = Fin 4\<rparr>], [\<lparr>p_x = Fin 1, p_y = Fin 1\<rparr>]])"
  using recognize_short_stroke
    [of "[[\<lparr>p_x = Fin 3, p_y = Fin 4\<rparr>], [\<lparr>p_x = Fin 1, p_y = Fin 1\<rparr>]]" 0 False
        "\<lparr>templates = [\<lparr>t_name = ''line'', t_points = 1, t_vector = [Fin 1, Fin 0]\<rparr>]\<rparr>"]
  by simp

section \<open>Import of a batch\<close>

text \<open>
  C3.  The guard of \<open>importTemplates\<close> lets an entry with a name and an empty array of
  points through (an empty array is truthy).  \<open>addGesture\<close> is called on it and raises
  a \<open>TypeError\<close>, which ends the import: the batch of this one entry, imported into an
  empty recognizer, raises.
\<close>

theorem importTemplates_empty_points_raises:
  "importTemplates [\<lparr>e_name = Some ''a'', e_points = Points 0, e_vector = None\<rparr>]
     (\<lparr>templates = []\<rparr>, [[]]) =
   Some (Inl TypeError, \<lparr>templates = []\<rparr>, [[]])"
  by (simp add: importTemplates_def addGesture_def createTemplate_def resample_def
        loadDefaultTemplates_def)

section \<open>Termination of the golden-section search\<close>

text \<open>
  C9.  For every bracket \<open>a < b\<close> of real numbers and every positive threshold,
  \<open>distanceAtBestAngle\<close> ends.  When the template has fewer points than the query, the
  first distance raises a \<open>TypeError\<close>.  Otherwise the search returns: every
  iteration multiplies the width of the bracket by \<open>\<phi>\<close>, so the final width is
  \<open>\<phi>\<^sup>k\<close> times the first one for some \<open>k\<close> and at most the threshold; the two
  interior angles are at the golden positions of the final bracket, \<open>f1\<close> and \<open>f2\<close>
  are the distances at them, and the function returns the smaller of the two.
\<close>

theorem distanceAtBestAngle_terminates:
  assumes "a < b" and "0 < threshold"
  shows "(length (h ! t_points template) < length points \<and>
      distanceAtBestAngle h points template (Fin a) (Fin b) (Fin threshold) = Some (Inl TypeError)) \<or>
     (length points \<le> length (h ! t_points template) \<and>
      (\<exists>s. bestAngle_search (distanceAtAngle h points template) (Fin a) (Fin b) (Fin threshold)
         = Some (Inr s) \<and>
       Math_abs (s_b s - s_a s) \<le> Fin threshold \<and>
       (\<exists>k. s_b s - s_a s = Fin (phi ^ k * (b - a))) \<and>
       s_x1 s = PHI * s_a s + (Fin 1 - PHI) * s_b s \<and>
       s_x2 s = (Fin 1 - PHI) * s_a s + PHI * s_b s \<and>
       distanceAtAngle h points template (s_x1 s) = Inr (s_f1 s) \<and>
       distanceAtAngle h points template (s_x2 s) = Inr (s_f2 s) \<and>
       distanceAtBestAngle h points template (Fin a) (Fin b) (Fin threshold)
         = Some (Inr (Math_min (s_f1 s) (s_f2 s)))))"
proof (cases "length points \<le> length (h ! t_points template)")
  case False
  then have "distanceAtBestAngle h points template (Fin a) (Fin b) (Fin threshold)
      = Some (Inl TypeError)"
    by (simp add: distanceAtBestAngle_def bestAngle_search_def distanceAtAngle_def
        pathDistance_def rotateBy_def Let_def)
  with False show ?thesis by simp
next
  case True
  let ?f = "distanceAtAngle h points template"
  have "\<not> (\<exists>e x. ?f x = Inl e)"
    using distanceAtAngle_no_error [OF True] by (metis Inl_Inr_False)
  with bestAngle_search_total [OF assms(1,2), of ?f]
  obtain s a' b' j where s: "bestAngle_search ?f (Fin a) (Fin b) (Fin threshold) = Some (Inr s)"
    "golden ?f a' b' s" "a' < b'" "b' - a' \<le> threshold" "b' - a' = phi ^ j * (b - a)"
    by blast
  from s(2,3,4) have "Math_abs (s_b s - s_a s) \<le> Fin threshold"
    by (simp add: golden_def)
  moreover have "s_b s - s_a s = Fin (phi ^ j * (b - a))"
    using s(5) by (simp add: goldenD(1,2) [OF s(2)])
  then have "\<exists>k. s_b s - s_a s = Fin (phi ^ k * (b - a))" ..
  moreover have "s_x1 s = PHI * s_a s + (Fin 1 - PHI) * s_b s"
    "s_x2 s = (Fin 1 - PHI) * s_a s + PHI * s_b s"
    by (simp_all add: goldenD(1-4) [OF s(2)] PHI_Fin)
  moreover have "?f (s_x1 s) = Inr (s_f1 s)" "?f (s_x2 s) = Inr (s_f2 s)"
    by (rule goldenD(5) [OF s(2)], rule goldenD(6) [OF s(2)])
  moreover from s(1) have "distanceAtBestAngle h points template (Fin a) (Fin b) (Fin threshold)
         = Some (Inr (Math_min (s_f1 s) (s_f2 s)))"
    by (simp add: distanceAtBestAngle_def)
  ultimately show ?thesis using s(1) True by blast
qed

theorem distanceAtBestAngle_terminates_witness:
  "- (pi / 4) < pi / 4 \<and> 0 < pi / 90 \<and>
   length [\<lparr>p_x = Fin 1, p_y = Fin 0\<rparr>, \<lparr>p_x = Fin 0, p_y = Fin 1\<rparr>]
     \<le> length ([[\<lparr>p_x = Fin 1, p_y = Fin 1\<rparr>, \<lparr>p_x = Fin 0, p_y = Fin 0\<rparr>]]
          ! t_points \<lparr>t_name = ''t'', t_points = 0, t_vector = []\<rparr>) \<and>
   (\<exists>s. bestAngle_search
          (distanceAtAngle [[\<lparr>p_x = Fin 1, p_y = Fin 1\<rparr>, \<lparr>p_x = Fin 0, p_y = Fin 0\<rparr>]]
             [\<lparr>p_x = Fin 1, p_y = Fin 0\<rparr>, \<lparr>p_x = Fin 0, p_y = Fin 1\<rparr>]
             \<lparr>t_name = ''t'', t_points = 0, t_vector = []\<rparr>)
          (Fin (- (pi / 4))) (Fin (pi / 4)) (Fin (pi / 90)) = Some (Inr s) \<and>
        Math_abs (s_b s - s_a s) \<le> Fin (pi / 90) \<and>
        (\<exists>k. s_b s - s_a s = Fin (phi ^ k * (pi / 4 - - (pi / 4)))) \<and>
        distanceAtBestAngle [[\<lparr>p_x = Fin 1, p_y = Fin 1\<rparr>, \<lparr>p_x = Fin 0, p_y = Fin 0\<rparr>]]
          [\<lparr>p_x = Fin 1, p_y = Fin 0\<rparr>, \<lparr>p_x = Fin 0, p_y = Fin 1\<rparr>]
          \<lparr>t_name = ''t'', t_points = 0, t_vector = []\<rparr>
          (Fin (- (pi / 4))) (Fin (pi / 4)) (Fin (pi / 90))
          = Some (Inr (Math_min (s_f1 s) (s_f2 s))))"
proof -
  have h1: "- (pi / 4) < pi / 4" by simp
  have h2: "0 < pi / 90" by simp
  have h3: "length [\<lparr>p_x = Fin 1, p_y = Fin 0\<rparr>, \<lparr>p_x = Fin 0, p_y = Fin 1\<rparr>]
     \<le> length ([[\<lparr>p_x = Fin 1, p_y = Fin 1\<rparr>, \<lparr>p_x = Fin 0, p_y = Fin 0\<rparr>]]
          ! t_points \<lparr>t_name = ''t'', t_points = 0, t_vector = []\<rparr>)" by simp
  from distanceAtBestAngle_terminates [OF h1 h2,
      of "[[\<lparr>p_x = Fin 1, p_y = Fin 1\<rparr>, \<lparr>p_x = Fin 0, p_y = Fin 0\<rparr>]]"
         "\<lparr>t_name = ''t'', t_points = 0, t_vector = []\<rparr>"
         "[\<lparr>p_x = Fin 1, p_y = Fin 0\<rparr>, \<lparr>p_x = Fin 0, p_y = Fin 1\<rparr>]"]
  have "\<exists>s. bestAngle_search
          (distanceAtAngle [[\<lparr>p_x = Fin 1, p_y = Fin 1\<rparr>, \<lparr>p_x = Fin 0, p_y = Fin 0\<rparr>]]
             [\<lparr>p_x = Fin 1, p_y = Fin 0\<rparr>, \<lparr>p_x = Fin 0, p_y = Fin 1\<rparr>]
             \<lparr>t_name = ''t'', t_points = 0, t_vector = []\<rparr>)
          (Fin (- (pi / 4))) (Fin (pi / 4)) (Fin (pi / 90)) = Some (Inr s) \<and>
        Math_abs (s_b s - s_a s) \<le> Fin (pi / 90) \<and>
        (\<exists>k. s_b s - s_a s = Fin (phi ^ k * (pi / 4 - - (pi / 4)))) \<and>
        distanceAtBestAngle [[\<lparr>p_x = Fin 1, p_y = Fin 1\<rparr>, \<lparr>p_x = Fin 0, p_y = Fin 0\<rparr>]]
          [\<lparr>p_x = Fin 1, p_y = Fin 0\<rparr>, \<lparr>p_x = Fin 0, p_y = Fin 1\<rparr>]
          \<lparr>t_name = ''t'', t_points = 0, t_vector = []\<rparr>
          (Fin (- (pi / 4))) (Fin (pi / 4)) (Fin (pi / 90))
          = Some (Inr (Math_min (s_f1 s) (s_f2 s)))"
    by auto
  with h1 h2 h3 show ?thesis by blast
qed

section \<open>The number of points of a template\<close>






section \<open>The scale step and zero extents\<close>




section \<open>The caller's array\<close>

text \<open>
  C2.  \<open>resample\<close> splices every interpolated point into the array it was given, which
  is the caller's: after \<open>addGesture\<close> on the stroke from \<open>(0, 0)\<close> to \<open>(63, 0)\<close>,
  the caller's array of two points holds 65 points.
\<close>

theorem addGesture_changes_stroke:
  "(case addGesture ''line'' 0
           (\<lparr>templates = []\<rparr>, [[\<lparr>p_x = Fin 0, p_y = Fin 0\<rparr>, \<lparr>p_x = Fin 63, p_y = Fin 0\<rparr>]]) of
      Some (Inr n, this, h') \<Rightarrow> length (h' ! 0)
    | _ \<Rightarrow> 0) = 65"
proof -
  let ?h = "[[\<lparr>p_x = Fin 0, p_y = Fin 0\<rparr>, \<lparr>p_x = Fin 63, p_y = Fin 0\<rparr>]]"
  have "\<exists>ps' new. createTemplate ''line'' 0 ?h =
       Some (Inr \<lparr>t_name = ''line'', t_points = length ?h, t_vector = vectorize (normalized new)\<rparr>,
             ?h[0 := ps'] @ [normalized new]) \<and>
     length ps' = length (?h ! 0) + 63"
    using createTemplate_flat [of 0 ?h "''line''"] straight_stroke by auto
  then show ?thesis by (auto simp: addGesture_def)
qed

section \<open>The range of the score\<close>

text \<open>
  C5.  Every result that \<open>recognize\<close> returns, for every stroke, every store and both
  matchers, has a score that is a real number between 0 and 1: never \<open>NaN\<close>, never
  an infinity.  A template is chosen only when its distance is below \<open>Infinity\<close>,
  which excludes \<open>NaN\<close>, and every distance is at least 0.
\<close>

theorem recognize_score_range:
  assumes "recognize points useProtractor w = Some (Inr result, w')"
  shows "\<exists>s. res_score result = Fin s \<and> 0 \<le> s \<and> s \<le> 1"
proof -
  obtain this h where w: "w = (this, h)" by (cases w)
  show ?thesis
  proof (cases "length (h ! points) < 2")
    case True
    with assms w show ?thesis by (auto simp: recognize_def noMatch_def)
  next
    case False
    from recognize_long [OF assms [unfolded w] False] obtain c h' bm bd where
      l: "recognize_loop useProtractor h' c (templates this) 0 (- 1) PInf = Some (Inr (bm, bd))"
      and r: "if bm = - 1 then result = noMatch
        else result = \<lparr>res_name = t_name (templates this ! nat bm),
                res_score = Math_max (Fin 0)
                  (if useProtractor then Fin 1 - bd else Fin 1 - bd / HALF_DIAGONAL)\<rparr>"
      by blast
    show ?thesis
    proof (cases "bm = - 1")
      case True
      with r show ?thesis by (simp add: noMatch_def)
    next
      case False
      with recognize_loop_result [OF l] have
        "bd < PInf" "matchDistance useProtractor h' c (templates this ! nat (bm - 0)) = Some (Inr bd)"
        by auto
      moreover from matchDistance_total [of useProtractor h' c "templates this ! nat (bm - 0)"]
        calculation(2) have "distance_like bd" by auto
      ultimately obtain x where "bd = Fin x" "0 \<le> x" using distance_like_less by blast
      with score_range [OF this(2), of useProtractor] r False show ?thesis by auto
    qed
  qed
qed

theorem recognize_score_range_witness:
  "\<exists>t ps' T r w'. addGesture ''corner'' 0 (\<lparr>templates = []\<rparr>, [corner_stroke, corner_stroke]) =
       Some (Inr 1, \<lparr>templates = [t]\<rparr>, [ps', corner_stroke, T]) \<and>
     recognize 1 False (\<lparr>templates = [t]\<rparr>, [ps', corner_stroke, T]) = Some (Inr r, w') \<and>
     res_name r = ''corner'' \<and> (\<exists>s. res_score r = Fin s \<and> 0 \<le> s \<and> s \<le> 1)"
proof -
  from corner_recognized obtain t ps' T r w' where
    w: "addGesture ''corner'' 0 (\<lparr>templates = []\<rparr>, [corner_stroke, corner_stroke]) =
       Some (Inr 1, \<lparr>templates = [t]\<rparr>, [ps', corner_stroke, T])"
     "recognize 1 False (\<lparr>templates = [t]\<rparr>, [ps', corner_stroke, T]) = Some (Inr r, w')"
     "res_name r = ''corner''"
    by blast
  from recognize_score_range [OF w(2)] w show ?thesis by blast
qed

section \<open>Ties between templates\<close>




section \<open>The store during recognize\<close>


section \<open>Export followed by import\<close>





end
